theory Spec2Isabelle
  imports Complex_Main "HOL-Library.Word" "HOL-Library.AList" "HOL-Library.Log_Nat"
begin

unbundle bit_operations_syntax

section \<open>MPE channel rotation (js/tuning-mpe.js)\<close>

text \<open>
  A note id is the string built by \<open>handleNoteOn\<close>, or \<open>null\<close> when \<open>handleNoteOff\<close>
  finds no matching note. The allocator only tests an id for truthiness and uses it as a
  key of a \<open>Map\<close>.
\<close>

datatype noteId = NullId | StrId string

fun truthy :: "noteId \<Rightarrow> bool" where
  "truthy NullId = False"
| "truthy (StrId s) = (s \<noteq> [])"

text \<open>
  A channel value as JavaScript holds it: a number, \<open>null\<close>, or \<open>undefined\<close> (what
  \<open>Map.get\<close> gives for a missing key).
\<close>

datatype chan = Null | Undefined | Chan nat

definition MPE_MASTER_CHANNEL :: nat where
  "MPE_MASTER_CHANNEL = 0"

definition MPE_MEMBER_CHANNELS :: "nat list" where
  "MPE_MEMBER_CHANNELS = map (\<lambda>i. i + 1) [0..<15]"

record mpe_state =
  channelPool :: "chan list"
  activeNotes :: "noteId \<rightharpoonup> chan"
  channelUsageOrder :: "noteId list"
  pitchBendRangeInitialized :: bool

definition resetMPEState :: mpe_state where
  "resetMPEState =
     \<lparr>channelPool = map Chan MPE_MEMBER_CHANNELS,
      activeNotes = Map.empty,
      channelUsageOrder = [],
      pitchBendRangeInitialized = False\<rparr>"

text \<open>\<open>activeNotes.get(k)\<close>: the stored value, \<open>undefined\<close> for a missing key.\<close>

definition map_get :: "(noteId \<rightharpoonup> chan) \<Rightarrow> noteId \<Rightarrow> chan" where
  "map_get m k = (case m k of None \<Rightarrow> Undefined | Some c \<Rightarrow> c)"

text \<open>
  The value \<open>allocateChannel\<close> returns: a bare channel value (possibly \<open>null\<close>), or the
  object \<open>{channel, reusedNoteId}\<close> of a steal.
\<close>

datatype alloc_result = Plain chan | Reused chan noteId

text \<open>
  \<open>indexOf\<close> followed by \<open>splice(index, 1)\<close> removes the first occurrence, which is
  \<open>remove1\<close>; \<open>shift\<close> takes the head of the array.
\<close>

definition allocateChannel :: "noteId \<Rightarrow> mpe_state \<Rightarrow> alloc_result \<times> mpe_state" where
  "allocateChannel nid s =
     (if \<not> truthy nid then (Plain Null, s)
      else if activeNotes s nid \<noteq> None then
        (Plain (map_get (activeNotes s) nid),
         s\<lparr>channelUsageOrder := remove1 nid (channelUsageOrder s) @ [nid]\<rparr>)
      else (case channelPool s of
          c # pool \<Rightarrow>
            (Plain c,
             s\<lparr>channelPool := pool,
               activeNotes := (activeNotes s)(nid \<mapsto> c),
               channelUsageOrder := channelUsageOrder s @ [nid]\<rparr>)
        | [] \<Rightarrow> (case channelUsageOrder s of
            reusedNoteId # order \<Rightarrow>
              (let channel = map_get (activeNotes s) reusedNoteId in
               (Reused channel reusedNoteId,
                s\<lparr>activeNotes := ((activeNotes s)(reusedNoteId := None))(nid \<mapsto> channel),
                  channelUsageOrder := order @ [nid]\<rparr>))
          | [] \<Rightarrow> (Plain Null, s))))"

text \<open>
  \<open>channelPool.sort((a, b) => a - b)\<close>: numbers ascending; \<open>undefined\<close> entries are
  moved to the end by \<open>Array.prototype.sort\<close> without being compared, and \<open>null\<close>
  counts as 0 in the subtraction.
\<close>

fun chan_key :: "chan \<Rightarrow> nat" where
  "chan_key (Chan n) = n"
| "chan_key _ = 0"

definition sort_pool :: "chan list \<Rightarrow> chan list" where
  "sort_pool cs = sort_key chan_key (filter (\<lambda>c. c \<noteq> Undefined) cs)
                    @ filter (\<lambda>c. c = Undefined) cs"

definition releaseChannel :: "noteId \<Rightarrow> mpe_state \<Rightarrow> mpe_state" where
  "releaseChannel nid s =
     (if \<not> truthy nid then s
      else if activeNotes s nid = None then s
      else
        (let channel = map_get (activeNotes s) nid;
             s1 = s\<lparr>activeNotes := (activeNotes s)(nid := None),
                    channelUsageOrder := remove1 nid (channelUsageOrder s)\<rparr>
         in if channel \<noteq> Null \<and> channel \<notin> set (channelPool s1)
               \<and> channel \<noteq> Chan MPE_MASTER_CHANNEL
            then s1\<lparr>channelPool := sort_pool (channelPool s1 @ [channel])\<rparr>
            else s1))"

definition getChannelForNote :: "noteId \<Rightarrow> mpe_state \<Rightarrow> chan" where
  "getChannelForNote nid s =
     (if activeNotes s nid \<noteq> None then map_get (activeNotes s) nid else Null)"

text \<open>The three state-changing calls of the module, and a run of them in order.\<close>

datatype mpe_call = AllocateChannel noteId | ReleaseChannel noteId | ResetMPEState

fun mpe_step :: "mpe_state \<Rightarrow> mpe_call \<Rightarrow> mpe_state" where
  "mpe_step s (AllocateChannel n) = snd (allocateChannel n s)"
| "mpe_step s (ReleaseChannel n) = releaseChannel n s"
| "mpe_step s ResetMPEState = resetMPEState"

definition mpe_run :: "mpe_call list \<Rightarrow> mpe_state" where
  "mpe_run calls = foldl mpe_step resetMPEState calls"

text \<open>Note-ons in a row, none released: the results in order and the final state.\<close>

fun allocateAll :: "noteId list \<Rightarrow> mpe_state \<Rightarrow> alloc_result list \<times> mpe_state" where
  "allocateAll [] s = ([], s)"
| "allocateAll (n # ns) s =
     (let r = allocateChannel n s; rest = allocateAll ns (snd r)
      in (fst r # fst rest, snd rest))"

text \<open>The channels held by active notes, and the invariants of the allocator.\<close>

definition assigned :: "mpe_state \<Rightarrow> chan set" where
  "assigned s = ran (activeNotes s)"

definition member_chans :: "chan set" where
  "member_chans = Chan ` {1..15}"

definition pool_invariant :: "mpe_state \<Rightarrow> bool" where
  "pool_invariant s \<longleftrightarrow>
     distinct (channelPool s)
     \<and> Chan MPE_MASTER_CHANNEL \<notin> set (channelPool s)
     \<and> set (channelPool s) \<inter> assigned s = {}
     \<and> set (channelPool s) \<union> assigned s \<subseteq> member_chans"

definition mpe_wf :: "mpe_state \<Rightarrow> bool" where
  "mpe_wf s \<longleftrightarrow>
     distinct (channelPool s)
     \<and> set (channelPool s) \<inter> assigned s = {}
     \<and> set (channelPool s) \<union> assigned s = member_chans
     \<and> inj_on (activeNotes s) (dom (activeNotes s))
     \<and> distinct (channelUsageOrder s)
     \<and> set (channelUsageOrder s) = dom (activeNotes s)"

section \<open>Tuning core (tuning-core.js)\<close>

text \<open>
  JavaScript numbers are modelled as reals (integers where the code only produces
  integers), so \<open>Math.log2\<close> is \<open>log 2\<close> and every operation is exact. \<open>Math.round\<close>
  rounds to the nearest integer, halves towards plus infinity. The remainder operator
  \<open>%\<close> takes the sign of the dividend.
\<close>

definition js_round :: "real \<Rightarrow> int" where
  "js_round x = \<lfloor>x + 1 / 2\<rfloor>"

definition js_rem :: "int \<Rightarrow> int \<Rightarrow> int" where
  "js_rem a n = (if a < 0 then - ((- a) mod n) else a mod n)"

definition JI_RATIOS_major :: "int \<rightharpoonup> real" where
  "JI_RATIOS_major = map_of
     [(0, 1 / 1), (1, 16 / 15), (2, 9 / 8), (3, 6 / 5), (4, 5 / 4), (5, 4 / 3), (6, 45 / 32),
      (7, 3 / 2), (8, 8 / 5), (9, 5 / 3), (10, 9 / 5), (11, 15 / 8), (12, 2 / 1)]"

definition JI_RATIOS_minor :: "int \<rightharpoonup> real" where
  "JI_RATIOS_minor = map_of
     [(0, 1 / 1), (1, 16 / 15), (2, 9 / 8), (3, 6 / 5), (4, 5 / 4), (5, 4 / 3), (6, 45 / 32),
      (7, 3 / 2), (8, 8 / 5), (9, 5 / 3), (10, 16 / 9), (11, 15 / 8), (12, 2 / 1)]"

definition JI_RATIOS :: "bool \<Rightarrow> int \<rightharpoonup> real" where
  "JI_RATIOS isMinor = (if isMinor then JI_RATIOS_minor else JI_RATIOS_major)"

text \<open>\<open>ratios[interval] || 1.0\<close>: a missing entry, or a zero one, gives 1.\<close>

definition ratio_or_one :: "(int \<rightharpoonup> real) \<Rightarrow> int \<Rightarrow> real" where
  "ratio_or_one ratios interval =
     (case ratios interval of None \<Rightarrow> 1 | Some r \<Rightarrow> if r = 0 then 1 else r)"

definition KEY_ROOTS :: "string \<rightharpoonup> int" where
  "KEY_ROOTS = map_of
     [(''C'', 60), (''C#'', 61), (''Db'', 61), (''D'', 62), (''D#'', 63), (''Eb'', 63),
      (''E'', 64), (''F'', 65), (''F#'', 66), (''Gb'', 66), (''G'', 67), (''G#'', 68),
      (''Ab'', 68), (''A'', 69), (''A#'', 70), (''Bb'', 70), (''B'', 71),
      (''Cm'', 60), (''C#m'', 61), (''Dm'', 62), (''D#m'', 63), (''Ebm'', 63),
      (''Em'', 64), (''Fm'', 65), (''F#m'', 66), (''Gm'', 67), (''G#m'', 68),
      (''Am'', 69), (''A#m'', 70), (''Bbm'', 70), (''Bm'', 71)]"

definition getKeyRoot :: "string \<Rightarrow> int" where
  "getKeyRoot keyName =
     (case KEY_ROOTS keyName of None \<Rightarrow> 60 | Some r \<Rightarrow> if r = 0 then 60 else r)"

definition isMinorKey :: "string \<Rightarrow> bool" where
  "isMinorKey keyName \<longleftrightarrow> keyName \<noteq> [] \<and> CHR ''m'' \<in> set keyName"

definition centsToPitchBend :: "real \<Rightarrow> int" where
  "centsToPitchBend cents =
     (let pitchBend = js_round ((cents / 200) * 8192)
      in max (- 8192) (min 8191 pitchBend))"

definition pitchBendToCents :: "int \<Rightarrow> real" where
  "pitchBendToCents pitchBend = (real_of_int pitchBend / 8192) * 200"

definition ratioToCentsDeviation :: "real \<Rightarrow> int \<Rightarrow> real" where
  "ratioToCentsDeviation ratio interval =
     (let jiCents = 1200 * log 2 ratio; etCents = real_of_int interval * 100
      in jiCents - etCents)"

definition calculateJICentsForNote :: "int \<Rightarrow> string \<Rightarrow> real" where
  "calculateJICentsForNote midiNote keyName =
     (let keyRoot = getKeyRoot keyName;
          ratios = JI_RATIOS (isMinorKey keyName);
          interval = js_rem (midiNote - keyRoot + 144) 12;
          ratio = ratio_or_one ratios interval
      in ratioToCentsDeviation ratio interval)"

definition calculateJIPitchBend :: "int \<Rightarrow> string \<Rightarrow> int" where
  "calculateJIPitchBend midiNote keyName =
     centsToPitchBend (calculateJICentsForNote midiNote keyName)"

text \<open>One entry of the table \<open>calculateScaleOctaveTuning\<close> fills, for pitch class \<open>pc\<close>.\<close>

definition scaleOctaveEntry :: "int \<Rightarrow> bool \<Rightarrow> int \<Rightarrow> real" where
  "scaleOctaveEntry keyRoot isMinor pc =
     (let interval = js_rem (pc - js_rem keyRoot 12 + 12) 12;
          ratio = ratio_or_one (JI_RATIOS isMinor) interval;
          jiCents = 1200 * log 2 ratio;
          etCents = real_of_int interval * 100;
          deviation = jiCents - etCents
      in real_of_int (js_round (deviation * 100)) / 100)"

definition calculateScaleOctaveTuning :: "int \<Rightarrow> bool \<Rightarrow> real list" where
  "calculateScaleOctaveTuning keyRoot isMinor =
     map (\<lambda>pc. scaleOctaveEntry keyRoot isMinor (int pc)) [0..<12]"

text \<open>
  \<open>sendPitchBend\<close> (tuning-mpe.js). The MIDI output is the list of messages sent to it
  so far, \<open>None\<close> when there is no output. The result is the number of bytes sent.
  A bitwise operator turns \<open>null\<close> and \<open>undefined\<close> into 0.
\<close>

type_synonym midi_out = "int list list"

fun chan_bits :: "chan \<Rightarrow> int" where
  "chan_bits (Chan n) = int n"
| "chan_bits _ = 0"

definition sendPitchBend :: "midi_out option \<Rightarrow> chan \<Rightarrow> int \<Rightarrow> nat \<times> midi_out option" where
  "sendPitchBend midiOutput channel bendValue =
     (case midiOutput of
        None \<Rightarrow> (0, None)
      | Some sent \<Rightarrow>
          if channel = Null \<or> channel = Undefined then (0, Some sent)
          else
            (let clamped = max (- 8192) (min 8191 bendValue);
                 bend = clamped + 8192;
                 lsb = bend AND 0x7F;
                 msb = (drop_bit 7 bend) AND 0x7F
             in (3, Some (sent @ [[0xE0 OR chan_bits channel, lsb, msb]]))))"

definition sendNoteOn :: "midi_out option \<Rightarrow> chan \<Rightarrow> int \<Rightarrow> int \<Rightarrow> nat \<times> midi_out option" where
  "sendNoteOn midiOutput channel note velocity =
     (case midiOutput of
        None \<Rightarrow> (0, None)
      | Some sent \<Rightarrow> (3, Some (sent @ [[0x90 OR chan_bits channel, note, velocity]])))"

definition sendNoteOff :: "midi_out option \<Rightarrow> chan \<Rightarrow> int \<Rightarrow> nat \<times> midi_out option" where
  "sendNoteOff midiOutput channel note =
     (case midiOutput of
        None \<Rightarrow> (0, None)
      | Some sent \<Rightarrow> (3, Some (sent @ [[0x80 OR chan_bits channel, note, 0]])))"

section \<open>MTS SysEx tuning (tuning-mts.js)\<close>

text \<open>
  The module state. \<open>mtsLastSuccessTime\<close> only records \<open>Date.now()\<close> and is left out.
  Sending to the output is modelled as appending to the list of messages sent; a send
  does not throw.
\<close>

record mts_state =
  mtsSupported :: bool
  mtsDetectionAttempted :: bool
  mtsFallbackRequested :: bool
  mtsMessagesSent :: nat
  currentScaleOctaveTuning :: "real list"
  currentTuningMode :: string

definition mts_initial :: mts_state where
  "mts_initial =
     \<lparr>mtsSupported = False, mtsDetectionAttempted = False, mtsFallbackRequested = False,
      mtsMessagesSent = 0, currentScaleOctaveTuning = replicate 12 0,
      currentTuningMode = ''detecting''\<rparr>"

definition centsToMTSFrequencyData :: "int \<Rightarrow> real \<Rightarrow> int list" where
  "centsToMTSFrequencyData baseMidiNote centsOffset =
     (let totalCents = real_of_int baseMidiNote * 100 + centsOffset;
          semitone = \<lfloor>totalCents / 100\<rfloor>
      in if semitone < 0 then [0x00, 0x00, 0x00]
         else if semitone > 127 then [0x7F, 0x7F, 0x7E]
         else
           (let fractionCents = max 0 (min 99.9939 (totalCents - real_of_int semitone * 100));
                fraction14bit = js_round ((fractionCents / 100) * 16383);
                fractionClamped = max 0 (min 16383 fraction14bit);
                fractionMSB = (drop_bit 7 fractionClamped) AND 0x7F;
                fractionLSB = fractionClamped AND 0x7F
            in [semitone AND 0x7F, fractionMSB, fractionLSB]))"

definition buildSingleNoteTuning :: "int \<Rightarrow> real \<Rightarrow> int list" where
  "buildSingleNoteTuning noteNumber centsOffset =
     [0xF0, 0x7F, 0x7F, 0x08, 0x02, 0x00, 0x01, noteNumber AND 0x7F]
       @ centsToMTSFrequencyData noteNumber centsOffset @ [0xF7]"

text \<open>
  \<open>buildScaleOctaveTuning2Byte\<close> with its default channel mask \<open>'all'\<close>, the only way
  the module calls it. \<open>None\<close> is the \<open>null\<close> returned for an array of the wrong
  length.
\<close>

definition scaleOctaveBytes :: "real \<Rightarrow> int list" where
  "scaleOctaveBytes cents =
     (let clampedCents = max (- 100) (min 100 cents);
          value14bit = js_round (((clampedCents + 100) / 200) * 16383);
          valueClamped = max 0 (min 16383 value14bit);
          msb = (drop_bit 7 valueClamped) AND 0x7F;
          lsb = valueClamped AND 0x7F
      in [msb, lsb])"

definition buildScaleOctaveTuning2Byte :: "real list \<Rightarrow> int list option" where
  "buildScaleOctaveTuning2Byte centsArray =
     (if length centsArray \<noteq> 12 then None
      else Some ([0xF0, 0x7F, 0x7F, 0x08, 0x09, 0x03, 0x7F, 0x7F]
                 @ concat (map scaleOctaveBytes centsArray) @ [0xF7]))"

text \<open>The result object \<open>{success, bytesSent}\<close> is a pair.\<close>

definition sendScaleOctaveTuning ::
  "midi_out option \<Rightarrow> real list \<Rightarrow> mts_state \<Rightarrow> (bool \<times> nat) \<times> midi_out option \<times> mts_state" where
  "sendScaleOctaveTuning midiOutput centsArray m =
     (case midiOutput of
        None \<Rightarrow> ((False, 0), None, m)
      | Some sent \<Rightarrow>
          (case buildScaleOctaveTuning2Byte centsArray of
             None \<Rightarrow> ((False, 0), Some sent, m)
           | Some message \<Rightarrow>
               ((True, length message), Some (sent @ [message]),
                m\<lparr>mtsMessagesSent := mtsMessagesSent m + 1,
                  currentScaleOctaveTuning := centsArray\<rparr>)))"

definition applySingleNoteTuning ::
  "midi_out option \<Rightarrow> int \<Rightarrow> real \<Rightarrow> mts_state \<Rightarrow> (bool \<times> nat) \<times> midi_out option \<times> mts_state" where
  "applySingleNoteTuning midiOutput note cents m =
     (case midiOutput of
        None \<Rightarrow> ((False, 0), None, m)
      | Some sent \<Rightarrow>
          if \<not> mtsSupported m then ((False, 0), Some sent, m)
          else
            (let mtsMessage = buildSingleNoteTuning note cents
             in ((True, length mtsMessage), Some (sent @ [mtsMessage]),
                 m\<lparr>mtsMessagesSent := mtsMessagesSent m + 1\<rparr>)))"

text \<open>
  \<open>initializePitchBendRange\<close> (tuning-mpe.js): RPN 0 set to 2 semitones on each member
  channel, once.
\<close>

definition pitchBendRangeMessages :: "nat \<Rightarrow> int list list" where
  "pitchBendRangeMessages channel =
     [[0xB0 OR int channel, 101, 0], [0xB0 OR int channel, 100, 0],
      [0xB0 OR int channel, 6, 2], [0xB0 OR int channel, 38, 0],
      [0xB0 OR int channel, 101, 127], [0xB0 OR int channel, 100, 127]]"

definition initializePitchBendRange ::
  "midi_out option \<Rightarrow> mpe_state \<Rightarrow> bool \<times> midi_out option \<times> mpe_state" where
  "initializePitchBendRange midiOutput s =
     (case midiOutput of
        None \<Rightarrow> (False, None, s)
      | Some sent \<Rightarrow>
          if pitchBendRangeInitialized s then (True, Some sent, s)
          else (True,
                Some (sent @ concat (map pitchBendRangeMessages MPE_MEMBER_CHANNELS)),
                s\<lparr>pitchBendRangeInitialized := True\<rparr>))"

text \<open>
  \<open>detectMTSSupport\<close>. \<open>savedPreference\<close> is what \<open>localStorage\<close> holds under
  \<open>tuningModePreference\<close> (\<open>None\<close> when absent); \<open>initMPE\<close> is the callback
  \<open>startSystem\<close> passes, \<open>initializePitchBendRange\<close> on the same output, and
  \<open>updateDisplay\<close> only redraws. The \<open>catch\<close> branch cannot be entered:
  \<open>sendScaleOctaveTuning\<close> catches every exception of its own body.
\<close>

record tuning_system =
  midiOutput :: "midi_out option"
  mts :: mts_state
  mpe :: mpe_state

definition initMPE :: "tuning_system \<Rightarrow> tuning_system" where
  "initMPE t =
     (let (ok, out, s) = initializePitchBendRange (midiOutput t) (mpe t)
      in t\<lparr>midiOutput := out, mpe := s\<rparr>)"

definition detectMTSSupport :: "bool \<Rightarrow> string option \<Rightarrow> tuning_system \<Rightarrow> tuning_system" where
  "detectMTSSupport sysexEnabled savedPreference t =
     (if midiOutput t = None \<or> mtsDetectionAttempted (mts t) then t
      else
        (let t1 = t\<lparr>mts := (mts t)\<lparr>mtsDetectionAttempted := True\<rparr>\<rparr>
         in if \<not> sysexEnabled then
              initMPE (t1\<lparr>mts := (mts t1)\<lparr>mtsSupported := False,
                                          mtsFallbackRequested := True,
                                          currentTuningMode := ''MPE''\<rparr>\<rparr>)
            else if savedPreference = Some ''MPE'' then
              initMPE (t1\<lparr>mts := (mts t1)\<lparr>mtsFallbackRequested := True,
                                          mtsSupported := False,
                                          currentTuningMode := ''MPE''\<rparr>\<rparr>)
            else
              (let t2 = t1\<lparr>mts := (mts t1)\<lparr>mtsSupported := True,
                                              currentTuningMode := ''MTS''\<rparr>\<rparr>;
                   (res, out, m) = sendScaleOctaveTuning (midiOutput t2) (replicate 12 0) (mts t2)
               in t2\<lparr>midiOutput := out, mts := m\<rparr>)))"

section \<open>Orchestrator (main.js)\<close>

text \<open>
  A warning printed with \<open>console.warn\<close>: by \<open>allocateChannel\<close> when it reuses a
  channel, by \<open>forwardNoteExternal\<close> when it cannot send a note, by \<open>applyTuning\<close>
  when it discards a stale prediction. The functions below return the warnings they print.
\<close>

datatype warning = ReusingChannel chan | CannotSendNote int | StalePrediction int

text \<open>
  The note object handed to \<open>forwardNote\<close>. \<open>pitchBend\<close> is absent on a note-off.
  The latency measurements around the sends only record times and byte counts and are
  left out.
\<close>

record note_data =
  nd_note :: int
  nd_velocity :: int
  nd_pitchBend :: "int option"
  nd_noteId :: noteId

text \<open>
  The block \<open>if (!usingMTS) { ... }\<close> of \<open>forwardNoteExternal\<close>: the channel the note
  goes out on, or \<open>None\<close> where the function returns early. The field \<open>midiOutput\<close> of
  the state is \<open>selectedOutput\<close> here.
\<close>

definition mpeChannelFor ::
  "note_data \<Rightarrow> chan \<Rightarrow> bool \<Rightarrow> tuning_system \<Rightarrow> chan option \<times> warning list \<times> tuning_system" where
  "mpeChannelFor noteData channel isNoteOn t =
     (let t1 = (if \<not> pitchBendRangeInitialized (mpe t) \<and> isNoteOn then initMPE t else t)
      in if isNoteOn then
           (let (allocationResult, s) = allocateChannel (nd_noteId noteData) (mpe t1);
                t2 = t1\<lparr>mpe := s\<rparr>
            in case allocationResult of
                 Plain Null \<Rightarrow> (None, [CannotSendNote (nd_note noteData)], t2)
               | Plain Undefined \<Rightarrow> (None, [CannotSendNote (nd_note noteData)], t2)
               | Plain (Chan n) \<Rightarrow> (Some (Chan n), [], t2)
               | Reused c reusedNoteId \<Rightarrow>
                   if c \<noteq> Undefined
                   then (Some c, [ReusingChannel c],
                         t2\<lparr>midiOutput := snd (sendPitchBend (midiOutput t2) c 0)\<rparr>)
                   else (Some channel, [ReusingChannel c], t2))
         else if truthy (nd_noteId noteData) then
           (let ch = getChannelForNote (nd_noteId noteData) (mpe t1)
            in (Some (if ch \<noteq> Null then ch else channel), [], t1))
         else (Some channel, [], t1))"

text \<open>
  \<open>forwardNoteExternal\<close>. \<open>forwardNote\<close> calls it only with an output selected; without
  one the final \<open>selectedOutput.send\<close> raises a TypeError, the result \<open>None\<close>.
\<close>

definition forwardNoteExternal ::
  "note_data \<Rightarrow> nat \<Rightarrow> bool \<Rightarrow> tuning_system \<Rightarrow> (warning list \<times> tuning_system) option" where
  "forwardNoteExternal noteData channel isNoteOn t =
     (case midiOutput t of
        None \<Rightarrow> None
      | Some _ \<Rightarrow>
          (let pitchBendValue = (case nd_pitchBend noteData of Some b \<Rightarrow> b | None \<Rightarrow> 0);
               usingMTS = mtsSupported (mts t);
               (route, warns, t1) =
                 (if \<not> usingMTS then mpeChannelFor noteData (Chan channel) isNoteOn t
                  else (Some (Chan channel), [], t))
           in case route of
                None \<Rightarrow> Some (warns, t1)
              | Some outputChannel \<Rightarrow>
                  (let (mtsResult, out2, m2) =
                         (if isNoteOn \<and> pitchBendValue \<noteq> 0 \<and> usingMTS
                          then applySingleNoteTuning (midiOutput t1) (nd_note noteData)
                                 (pitchBendToCents pitchBendValue) (mts t1)
                          else ((False, 0), midiOutput t1, mts t1));
                       t2 = t1\<lparr>midiOutput := out2, mts := m2\<rparr>;
                       t3 = (if \<not> usingMTS \<or> (isNoteOn \<and> \<not> fst mtsResult \<and> pitchBendValue \<noteq> 0)
                             then t2\<lparr>midiOutput :=
                                      snd (sendPitchBend (midiOutput t2) outputChannel pitchBendValue)\<rparr>
                             else t2);
                       status = (if isNoteOn then 0x90 else 0x80) OR chan_bits outputChannel;
                       t4 = t3\<lparr>midiOutput :=
                                 map_option (\<lambda>sent. sent @ [[status, nd_note noteData, nd_velocity noteData]])
                                   (midiOutput t3)\<rparr>;
                       t5 = (if \<not> isNoteOn \<and> \<not> usingMTS
                             then t4\<lparr>midiOutput := snd (sendPitchBend (midiOutput t4) outputChannel 0),
                                    mpe := releaseChannel (nd_noteId noteData) (mpe t4)\<rparr>
                             else t4)
                   in Some (warns, t5))))"

text \<open>
  Predictive tuning. An entry of a per-note queue is an object with optional fields, a bare
  number (a ratio), or \<open>null\<close>. The table is an object keyed by note number, kept here as
  an association list. \<open>Date.now()\<close> is the argument \<open>now\<close>, in milliseconds.
\<close>

record prediction =
  p_note_id :: "string option"
  p_cents :: "real option"
  p_ratio :: "real option"
  p_timestamp :: "real option"

datatype pred_entry = EntryNull | EntryNumber real | EntryObject prediction

record predictive_state =
  predictiveJITable :: "(int \<times> pred_entry list) list"
  predictiveTuningActive :: bool
  predictiveSeenIds :: "string set"

text \<open>\<open>entry?.timestamp\<close> and \<open>entry?.note_id\<close> as conditions: present and truthy.\<close>

fun truthy_timestamp :: "pred_entry \<Rightarrow> real option" where
  "truthy_timestamp (EntryObject e) =
     (case p_timestamp e of None \<Rightarrow> None | Some ts \<Rightarrow> if ts = 0 then None else Some ts)"
| "truthy_timestamp _ = None"

fun truthy_note_id :: "pred_entry \<Rightarrow> string option" where
  "truthy_note_id (EntryObject e) =
     (case p_note_id e of None \<Rightarrow> None | Some i \<Rightarrow> if i = [] then None else Some i)"
| "truthy_note_id _ = None"

text \<open>
  The three statements that follow the \<open>shift\<close> of an entry, in \<open>applyTuning\<close> for a
  stale entry and at the head of \<open>applyPredictiveTuning\<close>; \<open>queue\<close> is the queue after
  the shift.
\<close>

definition afterShift :: "pred_entry \<Rightarrow> int \<Rightarrow> pred_entry list \<Rightarrow> predictive_state \<Rightarrow> predictive_state" where
  "afterShift entry note queue st =
     (let seen = (case truthy_note_id entry of
                    None \<Rightarrow> predictiveSeenIds st
                  | Some i \<Rightarrow> predictiveSeenIds st - {i});
          table = (if queue = [] then AList.delete note (predictiveJITable st)
                   else AList.update note queue (predictiveJITable st))
      in \<lparr>predictiveJITable = table,
          predictiveTuningActive = list_ex (\<lambda>q. q \<noteq> []) (map snd table),
          predictiveSeenIds = seen\<rparr>)"

definition PREDICTION_STALENESS_THRESHOLD :: real where
  "PREDICTION_STALENESS_THRESHOLD = 60000"

definition predictedCents :: "pred_entry \<Rightarrow> real option" where
  "predictedCents entry =
     (case entry of
        EntryObject e \<Rightarrow>
          (case p_cents e of
             Some c \<Rightarrow> Some c
           | None \<Rightarrow> (case p_ratio e of Some r \<Rightarrow> Some (1200 * log 2 r) | None \<Rightarrow> None))
      | EntryNumber r \<Rightarrow> Some (1200 * log 2 r)
      | EntryNull \<Rightarrow> None)"

definition applyPredictiveTuning ::
  "pred_entry \<Rightarrow> int \<Rightarrow> int \<Rightarrow> pred_entry list \<Rightarrow> predictive_state
     \<Rightarrow> (int \<times> int \<times> int) \<times> predictive_state" where
  "applyPredictiveTuning entry note velocity queue st =
     (let st1 = afterShift entry note queue st
      in case predictedCents entry of
           Some centsDeviation \<Rightarrow> ((note, velocity, centsToPitchBend centsDeviation), st1)
         | None \<Rightarrow> ((note, velocity, 0), st1))"

text \<open>
  The reactive branch of \<open>applyTuning\<close>: the key of the score follower when it is
  following and has one, else the detector's current key; no key gives no bend.
\<close>

record key_sources =
  scoreFollowingActive :: bool
  lastMusicXMLKey :: "string option"
  detectorKey :: "string option"

definition truthy_key :: "string option \<Rightarrow> bool" where
  "truthy_key k \<longleftrightarrow> (case k of None \<Rightarrow> False | Some s \<Rightarrow> s \<noteq> [])"

definition reactiveTuning :: "int \<Rightarrow> int \<Rightarrow> key_sources \<Rightarrow> int \<times> int \<times> int" where
  "reactiveTuning note velocity ks =
     (let currentKey = (if scoreFollowingActive ks \<and> truthy_key (lastMusicXMLKey ks)
                        then lastMusicXMLKey ks else detectorKey ks)
      in if \<not> truthy_key currentKey then (note, velocity, 0)
         else (note, velocity, calculateJIPitchBend note (the currentKey)))"

definition applyTuning ::
  "int \<Rightarrow> int \<Rightarrow> real \<Rightarrow> key_sources \<Rightarrow> predictive_state
     \<Rightarrow> (int \<times> int \<times> int) \<times> warning list \<times> predictive_state" where
  "applyTuning note velocity now ks st =
     (case (if predictiveTuningActive st then map_of (predictiveJITable st) note else None) of
        Some (entry # queue) \<Rightarrow>
          (case truthy_timestamp entry of
             Some ts \<Rightarrow>
               (let age = now - ts * 1000
                in if age > PREDICTION_STALENESS_THRESHOLD
                   then (reactiveTuning note velocity ks, [StalePrediction note],
                         afterShift entry note queue st)
                   else (let (r, st1) = applyPredictiveTuning entry note velocity queue st
                         in (r, [], st1)))
           | None \<Rightarrow>
               (let (r, st1) = applyPredictiveTuning entry note velocity queue st
                in (r, [], st1)))
      | _ \<Rightarrow> (reactiveTuning note velocity ks, [], st))"

section \<open>Capability probing (script5.js)\<close>

text \<open>
  The probing snapshot. The output is the list of messages sent, the input is present or
  not, and the messages that arrive on the input before a wait times out are an argument
  of the wait: \<open>waitForSysex\<close> resolves with the first of them that starts with 0xF0 and
  satisfies the match function, with \<open>null\<close> when there is none or no input. Reading a
  byte beyond the end of a message gives \<open>undefined\<close>, which equals no number.
\<close>

record s5_state =
  s5_midiOutput :: "midi_out option"
  s5_midiInput :: bool
  lastDeviceId :: int
  sysExSupported :: bool
  forcePbOnly :: bool
  statusText :: string
  showTestButton :: bool

definition s5_initial :: "midi_out option \<Rightarrow> bool \<Rightarrow> s5_state" where
  "s5_initial out inp =
     \<lparr>s5_midiOutput = out, s5_midiInput = inp, lastDeviceId = 0x7F, sysExSupported = True,
      forcePbOnly = False, statusText = [], showTestButton = False\<rparr>"

definition byte_at :: "int list \<Rightarrow> nat \<Rightarrow> int option" where
  "byte_at d i = (if i < length d then Some (d ! i) else None)"

definition waitForSysex :: "(int list \<Rightarrow> bool) \<Rightarrow> int list list \<Rightarrow> s5_state \<Rightarrow> int list option" where
  "waitForSysex matchFn arrivals st =
     (if \<not> s5_midiInput st then None
      else find (\<lambda>d. byte_at d 0 = Some 0xF0 \<and> matchFn d) arrivals)"

definition s5_send :: "int list \<Rightarrow> s5_state \<Rightarrow> s5_state" where
  "s5_send msg st = st\<lparr>s5_midiOutput := map_option (\<lambda>sent. sent @ [msg]) (s5_midiOutput st)\<rparr>"

definition isIdentityReply :: "int list \<Rightarrow> bool" where
  "isIdentityReply d \<longleftrightarrow>
     length d \<ge> 15 \<and> byte_at d 1 = Some 0x7E \<and> byte_at d 3 = Some 0x06 \<and> byte_at d 4 = Some 0x02"

definition isDumpReply :: "int list \<Rightarrow> bool" where
  "isDumpReply d \<longleftrightarrow>
     byte_at d 1 = Some 0x7E \<and> byte_at d 3 = Some 0x08
     \<and> (case byte_at d 4 of None \<Rightarrow> False | Some b \<Rightarrow> b \<in> set [1, 4, 5, 6])"

text \<open>\<open>probeIdentity\<close>: the device id of the reply, \<open>None\<close> for \<open>null\<close>.\<close>

definition probeIdentity :: "int list list \<Rightarrow> s5_state \<Rightarrow> int option \<times> s5_state" where
  "probeIdentity arrivals st =
     (if s5_midiOutput st = None \<or> \<not> s5_midiInput st then (None, st)
      else
        (let st1 = s5_send [0xF0, 0x7E, 0x7F, 0x06, 0x01, 0xF7] st
         in case waitForSysex isIdentityReply arrivals st1 of
              None \<Rightarrow> (None, st1)
            | Some rsp \<Rightarrow> (Some ((rsp ! 2) AND 0x7F), st1)))"

definition probeMtsDump :: "int \<Rightarrow> int \<Rightarrow> int list list \<Rightarrow> s5_state \<Rightarrow> bool \<times> s5_state" where
  "probeMtsDump deviceId program arrivals st =
     (if s5_midiOutput st = None \<or> \<not> s5_midiInput st then (False, st)
      else
        (let st1 = s5_send [0xF0, 0x7E, deviceId, 0x08, 0x00, program AND 0x7F, 0xF7] st
         in (waitForSysex isDumpReply arrivals st1 \<noteq> None, st1)))"

definition updateStatus :: "string \<Rightarrow> bool \<Rightarrow> s5_state \<Rightarrow> s5_state" where
  "updateStatus message testButton st = st\<lparr>statusText := message, showTestButton := testButton\<rparr>"

text \<open>
  \<open>afterOutputSelected\<close>; \<open>arrivals1\<close> are the messages arriving within the 500 ms of
  the identity wait, \<open>arrivals2\<close> those within the 600 ms of the dump wait.
\<close>

definition afterOutputSelected :: "int list list \<Rightarrow> int list list \<Rightarrow> s5_state \<Rightarrow> s5_state" where
  "afterOutputSelected arrivals1 arrivals2 st =
     (let st0 = updateStatus ''Probing device capabilities...'' False st;
          (id, st1) = probeIdentity arrivals1 st0;
          st2 = (case id of None \<Rightarrow> st1 | Some deviceId \<Rightarrow> st1\<lparr>lastDeviceId := deviceId\<rparr>);
          (hasDump, st3) = probeMtsDump (lastDeviceId st2) 0 arrivals2 st2
      in if hasDump
         then updateStatus ''MTS Confirmed (device responded to MTS query).'' False st3
         else updateStatus ''MTS support is unknown. You can run an audible test.'' True st3)"

text \<open>
  The test \<open>!forcePbOnly && sysExSupported\<close> with which the note-on handler chooses the
  SysEx message over the pitch bend.
\<close>

definition tunesBySysEx :: "s5_state \<Rightarrow> bool" where
  "tunesBySysEx st \<longleftrightarrow> \<not> forcePbOnly st \<and> sysExSupported st"

section \<open>Ensemble key detection (key-detection.js)\<close>

text \<open>
  The numbers of the detector are IEEE 754 doubles. A double is the real number it
  denotes, and every arithmetic operation returns the double nearest the exact result,
  ties to the even significand (53 bits). The exponent range is not bounded: the detector
  works with counts, with constants between 0.006 and 400, and with sums of their products,
  which neither overflow nor reach the subnormal range for a buffer of fewer than
  \<open>2 ^ 53\<close> notes.

  \<open>exponentOf x\<close> is, for \<open>x > 0\<close>, the integer \<open>e\<close> with \<open>2 powi e \<le> x < 2 powi (e + 1)\<close>,
  found from the bit length of \<open>\<lfloor>x\<rfloor>\<close> or of \<open>\<lfloor>1 / x\<rfloor>\<close>; \<open>toDouble x\<close> is the double
  nearest \<open>x\<close>; \<open>dadd\<close>, \<open>dmul\<close> and \<open>ddiv\<close> are \<open>+\<close>, \<open>*\<close> and \<open>/\<close> of two doubles. A
  decimal literal of the source is the double nearest to it, and \<open>Math.round\<close> of a
  double is exact.
\<close>

definition roundTiesToEven :: "real \<Rightarrow> int" where
  "roundTiesToEven y =
     (let f = \<lfloor>y\<rfloor>; d = y - of_int f
      in if d < 1 / 2 then f else if 1 / 2 < d then f + 1 else if even f then f else f + 1)"

definition exponentOf :: "real \<Rightarrow> int" where
  "exponentOf x =
     (let g = (if 1 \<le> x then bitlen \<lfloor>x\<rfloor> - 1 else - bitlen \<lfloor>1 / x\<rfloor>)
      in if x < 2 powi (g + 1) then g else g + 1)"

definition toDouble :: "real \<Rightarrow> real" where
  "toDouble x =
     (if x = 0 then 0
      else (let e = exponentOf \<bar>x\<bar> - 52
            in sgn x * (of_int (roundTiesToEven (\<bar>x\<bar> / 2 powi e)) * 2 powi e)))"

definition dadd :: "real \<Rightarrow> real \<Rightarrow> real" where
  "dadd a b = toDouble (a + b)"

definition dmul :: "real \<Rightarrow> real \<Rightarrow> real" where
  "dmul a b = toDouble (a * b)"

definition ddiv :: "real \<Rightarrow> real \<Rightarrow> real" where
  "ddiv a b = toDouble (a / b)"

record key_profiles =
  major :: "real list"
  minor :: "real list"

definition ALBRECHT_SHANAHAN_PROFILES :: key_profiles where
  "ALBRECHT_SHANAHAN_PROFILES =
     \<lparr>major = map toDouble [0.238, 0.006, 0.111, 0.006, 0.137, 0.094, 0.016, 0.214, 0.009, 0.080, 0.008, 0.081],
      minor = map toDouble [0.220, 0.006, 0.104, 0.123, 0.019, 0.103, 0.012, 0.214, 0.062, 0.022, 0.061, 0.052]\<rparr>"

definition TEMPERLEY_PROFILES :: key_profiles where
  "TEMPERLEY_PROFILES =
     \<lparr>major = map toDouble [0.176, 0.014, 0.115, 0.019, 0.158, 0.108, 0.023, 0.168, 0.024, 0.086, 0.013, 0.094],
      minor = map toDouble [0.170, 0.020, 0.113, 0.148, 0.012, 0.110, 0.025, 0.179, 0.097, 0.016, 0.032, 0.079]\<rparr>"

definition KRUMHANSL_KESSLER_PROFILES :: key_profiles where
  "KRUMHANSL_KESSLER_PROFILES =
     \<lparr>major = map toDouble [0.152, 0.053, 0.083, 0.056, 0.105, 0.098, 0.060, 0.124, 0.057, 0.088, 0.055, 0.069],
      minor = map toDouble [0.142, 0.060, 0.079, 0.121, 0.058, 0.079, 0.057, 0.107, 0.089, 0.060, 0.075, 0.071]\<rparr>"

text \<open>\<open>ENSEMBLE_CONFIG.profiles\<close> in the order of its keys: name, data, weight.\<close>

definition ENSEMBLE_CONFIG_profiles :: "(string \<times> key_profiles \<times> real) list" where
  "ENSEMBLE_CONFIG_profiles =
     [(''albrecht_shanahan'', ALBRECHT_SHANAHAN_PROFILES, toDouble 0.45),
      (''temperley'', TEMPERLEY_PROFILES, toDouble 0.35),
      (''krumhansl_kessler'', KRUMHANSL_KESSLER_PROFILES, toDouble 0.20)]"

definition NOTE_NAMES :: "string list" where
  "NOTE_NAMES = [''C'', ''C#'', ''D'', ''D#'', ''E'', ''F'', ''F#'', ''G'', ''G#'', ''A'', ''A#'', ''B'']"

text \<open>
  A score that starts at \<open>-Infinity\<close>: \<open>None\<close> is \<open>-Infinity\<close>. The operations are
  the comparison \<open>a > b\<close> of a number with such a score and of two such scores, the
  product with a positive weight, and the sum.
\<close>

type_synonym xscore = "real option"

fun exceeds :: "real \<Rightarrow> xscore \<Rightarrow> bool" where
  "exceeds a None = True"
| "exceeds a (Some b) = (a > b)"

fun xexceeds :: "xscore \<Rightarrow> xscore \<Rightarrow> bool" where
  "xexceeds None _ = False"
| "xexceeds (Some a) b = exceeds a b"

fun xscale :: "real \<Rightarrow> xscore \<Rightarrow> xscore" where
  "xscale w None = None"
| "xscale w (Some b) = Some (dmul w b)"

fun xadd :: "xscore \<Rightarrow> xscore \<Rightarrow> xscore" where
  "xadd (Some a) (Some b) = Some (dadd a b)"
| "xadd _ _ = None"

record note_event =
  ne_note :: nat
  ne_time :: real
  ne_velocity :: nat

definition noteCountsOf :: "note_event list \<Rightarrow> nat list" where
  "noteCountsOf noteBuffer =
     foldl (\<lambda>noteCounts noteEvent.
              noteCounts[ne_note noteEvent mod 12 := noteCounts ! (ne_note noteEvent mod 12) + 1])
       (replicate 12 0) noteBuffer"

definition rotated :: "real list \<Rightarrow> nat \<Rightarrow> real list" where
  "rotated profileData rootPc =
     drop (12 - rootPc) profileData @ take (12 - rootPc) profileData"

definition scalarProduct :: "real list \<Rightarrow> real list \<Rightarrow> real" where
  "scalarProduct normalized rot = foldl (\<lambda>score i. dadd score (dmul (normalized ! i) (rot ! i))) 0 [0..<12]"

definition keyNameOf :: "nat \<Rightarrow> bool \<Rightarrow> string" where
  "keyNameOf rootPc isMinor = NOTE_NAMES ! rootPc @ (if isMinor then ''m'' else [])"

text \<open>The two nested loops over the 12 roots and the modes major, minor, for one profile.\<close>

definition candidates :: "(nat \<times> bool) list" where
  "candidates = concat (map (\<lambda>rootPc. [(rootPc, False), (rootPc, True)]) [0..<12])"

definition bestStep ::
  "real list \<Rightarrow> key_profiles \<Rightarrow> string option \<times> xscore \<Rightarrow> nat \<times> bool \<Rightarrow> string option \<times> xscore" where
  "bestStep normalized profile best cand =
     (let profileData = (if snd cand then minor profile else major profile);
          score = scalarProduct normalized (rotated profileData (fst cand))
      in if exceeds score (snd best) then (Some (keyNameOf (fst cand) (snd cand)), Some score)
         else best)"

definition bestKeyFor :: "real list \<Rightarrow> key_profiles \<Rightarrow> string option \<times> xscore" where
  "bestKeyFor normalized profile = foldl (bestStep normalized profile) (None, None) candidates"

text \<open>
  \<open>keyVotes\<close>, an object filled in the order of first insertion, as an association
  list. A \<open>null\<close> key would be the property \<open>'null'\<close>.
\<close>

record vote =
  weightedScore :: xscore
  voteCount :: nat
  profiles :: "string list"

definition propertyName :: "string option \<Rightarrow> string" where
  "propertyName k = (case k of None \<Rightarrow> ''null'' | Some s \<Rightarrow> s)"

definition addVote ::
  "real list \<Rightarrow> (string \<times> vote) list \<Rightarrow> string \<times> key_profiles \<times> real \<Rightarrow> (string \<times> vote) list" where
  "addVote normalized keyVotes cfg =
     (let profileName = fst cfg; profile = fst (snd cfg); weight = snd (snd cfg);
          (bestKey, bestScore) = bestKeyFor normalized profile;
          k = propertyName bestKey;
          old = (case map_of keyVotes k of
                   None \<Rightarrow> \<lparr>weightedScore = Some 0, voteCount = 0, profiles = []\<rparr>
                 | Some v \<Rightarrow> v)
      in AList.update k
           \<lparr>weightedScore = xadd (weightedScore old) (xscale weight bestScore),
            voteCount = voteCount old + 1,
            profiles = profiles old @ [profileName]\<rparr>
           keyVotes)"

definition tallyVotes :: "real list \<Rightarrow> (string \<times> vote) list" where
  "tallyVotes normalized = foldl (addVote normalized) [] ENSEMBLE_CONFIG_profiles"

definition profileResultsOf :: "real list \<Rightarrow> (string \<times> string option \<times> xscore) list" where
  "profileResultsOf normalized =
     map (\<lambda>cfg. (fst cfg, bestKeyFor normalized (fst (snd cfg)))) ENSEMBLE_CONFIG_profiles"

definition finalStep ::
  "string option \<times> xscore \<times> nat \<Rightarrow> string \<times> vote \<Rightarrow> string option \<times> xscore \<times> nat" where
  "finalStep fin entry =
     (if xexceeds (weightedScore (snd entry)) (fst (snd fin))
      then (Some (fst entry), weightedScore (snd entry), voteCount (snd entry))
      else fin)"

definition finalVote :: "(string \<times> vote) list \<Rightarrow> string option \<times> xscore \<times> nat" where
  "finalVote keyVotes = foldl finalStep (None, None, 0) keyVotes"

definition thresholdFor :: "string \<Rightarrow> real" where
  "thresholdFor sensitivity =
     (if sensitivity = ''high'' then toDouble 0.03
      else if sensitivity = ''medium'' then toDouble 0.04 else toDouble 0.05)"

definition agreementBonus :: "nat \<Rightarrow> real" where
  "agreementBonus agreement = (if agreement = 3 then toDouble 1.2 else if agreement = 2 then toDouble 1.0 else toDouble 0.8)"

fun digits :: "nat \<Rightarrow> string" where
  "digits n = (if n < 10 then [char_of (48 + n)] else digits (n div 10) @ [char_of (48 + n mod 10)])"

definition agreementTextOf :: "nat \<Rightarrow> string" where
  "agreementTextOf agreement =
     (if agreement = 3 then ''unanimous'' else digits agreement @ ''/3 agree'')"

text \<open>The estimate returned; its field \<open>method\<close> is \<open>methodName\<close> here.\<close>

record key_estimate =
  key :: string
  confidence :: int
  agreement :: nat
  agreementText :: string
  profileResults :: "(string \<times> string option \<times> xscore) list"
  methodName :: string

text \<open>
  The normalised histogram of a buffer, \<open>None\<close> where the function returns \<open>null\<close> for
  a total of 0.
\<close>

definition normalizedOf :: "note_event list \<Rightarrow> real list option" where
  "normalizedOf noteBuffer =
     (let noteCounts = noteCountsOf noteBuffer;
          total = foldl (\<lambda>a b. a + b) 0 noteCounts
      in if total = 0 then None
         else Some (map (\<lambda>c. ddiv (real c) (real total)) noteCounts))"

text \<open>
  \<open>detectKeyEnsemble\<close>: the estimate or \<open>null\<close>, and the detector's \<open>currentKey\<close>
  afterwards.
\<close>

definition detectKeyEnsemble ::
  "note_event list \<Rightarrow> string \<Rightarrow> string option \<Rightarrow> key_estimate option \<times> string option" where
  "detectKeyEnsemble noteBuffer sensitivity currentKey =
     (let threshold = thresholdFor sensitivity
      in case normalizedOf noteBuffer of
           None \<Rightarrow> (None, currentKey)
         | Some normalized \<Rightarrow>
             (let (finalKey, finalScore, agreement) = finalVote (tallyVotes normalized)
              in case finalScore of
                   None \<Rightarrow> (None, currentKey)
                 | Some fs \<Rightarrow>
                     (let confidencePercent = js_round (dmul (dmul fs 400) (agreementBonus agreement))
                      in if fs \<ge> threshold \<and> finalKey \<noteq> currentKey
                         then (Some \<lparr>key = propertyName finalKey,
                                     confidence = confidencePercent,
                                     agreement = agreement,
                                     agreementText = agreementTextOf agreement,
                                     profileResults = profileResultsOf normalized,
                                     methodName = ''ensemble''\<rparr>,
                               finalKey)
                         else (None, currentKey))))"

section \<open>Bounds used in the analysis of the key detector\<close>

text \<open>
  \<open>roundoff\<close> is the factor by which one rounding can enlarge a positive number. A pair of
  profiles has twelve entries each, all between 0 and \<open>M\<close>; a search result is a key with
  a score between 0 and \<open>M\<close>; every vote has a finite weighted score between 0 and \<open>B\<close>
  and between 1 and \<open>n\<close> votes; a final vote is the initial one or taken from an entry of
  the votes.
\<close>

definition roundoff :: real where
  "roundoff = 1 + 1 / 2 ^ 53"

definition profile_within :: "key_profiles \<Rightarrow> real \<Rightarrow> bool" where
  "profile_within P M \<longleftrightarrow>
     length (major P) = 12 \<and> length (minor P) = 12
     \<and> (\<forall>x\<in>set (major P). 0 \<le> x \<and> x \<le> M) \<and> (\<forall>x\<in>set (minor P). 0 \<le> x \<and> x \<le> M)"

definition found_within :: "real \<Rightarrow> string option \<times> xscore \<Rightarrow> bool" where
  "found_within M best \<longleftrightarrow> (\<exists>k b. best = (Some k, Some b) \<and> 0 \<le> b \<and> b \<le> M)"

definition votes_within :: "real \<Rightarrow> nat \<Rightarrow> (string \<times> vote) list \<Rightarrow> bool" where
  "votes_within B n keyVotes \<longleftrightarrow>
     (\<forall>(k, v)\<in>set keyVotes.
        \<exists>w. weightedScore v = Some w \<and> 0 \<le> w \<and> w \<le> B \<and> 1 \<le> voteCount v \<and> voteCount v \<le> n)"

definition picked_from :: "(string \<times> vote) list \<Rightarrow> string option \<times> xscore \<times> nat \<Rightarrow> bool" where
  "picked_from keyVotes fin \<longleftrightarrow>
     fin = (None, None, 0)
     \<or> (\<exists>(k, v)\<in>set keyVotes. fin = (Some k, weightedScore v, voteCount v))"

section \<open>A scenario: fifteen notes held, a sixteenth arrives\<close>

text \<open>
  The state after fifteen note-ons with no note-off on the MPE backend, pitch-bend range
  already initialised, and the note-on that follows.
\<close>

definition fifteen_ids :: "noteId list" where
  "fifteen_ids = map StrId [''1_60'', ''2_61'', ''3_62'', ''4_63'', ''5_64'', ''6_65'', ''7_66'',
      ''8_67'', ''9_68'', ''10_69'', ''11_70'', ''12_71'', ''13_72'', ''14_73'', ''15_74'']"

definition fifteen_held :: tuning_system where
  "fifteen_held =
     \<lparr>midiOutput = Some [],
      mts = mts_initial,
      mpe = (snd (allocateAll fifteen_ids resetMPEState))\<lparr>pitchBendRangeInitialized := True\<rparr>\<rparr>"

definition sixteenth_note :: note_data where
  "sixteenth_note =
     \<lparr>nd_note = 75, nd_velocity = 100, nd_pitchBend = Some 0, nd_noteId = StrId ''16_75''\<rparr>"

section \<open>A scenario: one queued prediction for note 61\<close>

text \<open>
  No key is known, so reactive tuning gives no bend; the queue of note 61 holds one
  prediction of 5 cents with the given timestamp (seconds).
\<close>

definition no_key :: key_sources where
  "no_key = \<lparr>scoreFollowingActive = False, lastMusicXMLKey = None, detectorKey = None\<rparr>"

definition prediction_at :: "real \<Rightarrow> pred_entry" where
  "prediction_at ts =
     EntryObject \<lparr>p_note_id = Some ''n1'', p_cents = Some 5, p_ratio = None, p_timestamp = Some ts\<rparr>"

definition one_prediction :: "real \<Rightarrow> predictive_state" where
  "one_prediction ts =
     \<lparr>predictiveJITable = [(61, [prediction_at ts])],
      predictiveTuningActive = True,
      predictiveSeenIds = {''n1''}\<rparr>"

section \<open>A scenario: a fresh system and an identity reply\<close>

text \<open>
  An output with nothing sent yet and both modules in their initial state, and a
  15-byte identity reply from device 0x10.
\<close>

definition fresh_system :: tuning_system where
  "fresh_system = \<lparr>midiOutput = Some [], mts = mts_initial, mpe = resetMPEState\<rparr>"

definition identity_reply :: "int list" where
  "identity_reply =
     [0xF0, 0x7E, 0x10, 0x06, 0x02, 0x41, 0x00, 0x00, 0x00, 0x00, 0x00, 0x00, 0x00, 0x00, 0xF7]"

section \<open>A scenario: an ambiguous note buffer\<close>

text \<open>
  Eight notes, enough for the orchestrator to run a detection, on which the three
  profiles name three different keys.
\<close>

definition ambiguous_notes :: "note_event list" where
  "ambiguous_notes =
     map (\<lambda>n. \<lparr>ne_note = n, ne_time = 0, ne_velocity = 100\<rparr>) [65, 67, 66, 61, 71, 60, 63, 69]"

section \<open>Properties of the MPE channel allocator\<close>

lemma member_chans_simps:
  "Null \<notin> member_chans" "Undefined \<notin> member_chans" "Chan 0 \<notin> member_chans"
  "Chan n \<in> member_chans \<longleftrightarrow> 1 \<le> n \<and> n \<le> 15"
  by (auto simp: member_chans_def)

lemma set_member_pool: "Chan ` set MPE_MEMBER_CHANNELS = member_chans"
proof -
  have "set MPE_MEMBER_CHANNELS = {1..15}"
    unfolding MPE_MEMBER_CHANNELS_def by (auto simp: image_iff)
  then show ?thesis by (simp add: member_chans_def)
qed

lemma distinct_member_pool: "distinct (map Chan MPE_MEMBER_CHANNELS)"
  by (simp add: MPE_MEMBER_CHANNELS_def distinct_map inj_on_def)

lemma mpe_wf_reset: "mpe_wf resetMPEState"
  by (simp add: mpe_wf_def resetMPEState_def assigned_def set_member_pool distinct_member_pool)

lemma set_sort_pool: "set (sort_pool cs) = set cs"
  by (auto simp: sort_pool_def)

lemma distinct_sort_pool: "distinct cs \<Longrightarrow> distinct (sort_pool cs)"
  by (auto simp: sort_pool_def)

lemma ran_fresh_upd: "m k = None \<Longrightarrow> ran (m(k \<mapsto> v)) = insert v (ran m)"
  by simp

lemma ran_delete_inj:
  assumes "inj_on m (dom m)" "m k = Some v"
  shows "ran (m(k := None)) = ran m - {v}"
proof (rule set_eqI)
  fix x
  show "x \<in> ran (m(k := None)) \<longleftrightarrow> x \<in> ran m - {v}"
  proof
    assume "x \<in> ran (m(k := None))"
    then obtain a where a: "a \<noteq> k" "m a = Some x" by (auto simp: ran_def split: if_splits)
    have "x \<noteq> v"
    proof
      assume "x = v"
      then have "m a = m k" using a assms by simp
      then have "a = k" using assms a by (auto simp: inj_on_def dom_def)
      then show False using a by simp
    qed
    then show "x \<in> ran m - {v}" using a by (auto simp: ran_def)
  next
    assume "x \<in> ran m - {v}"
    then obtain a where a: "m a = Some x" "x \<noteq> v" by (auto simp: ran_def)
    then have "a \<noteq> k" using assms by auto
    then show "x \<in> ran (m(k := None))" using a by (auto simp: ran_def)
  qed
qed

lemma inj_on_delete: "inj_on m (dom m) \<Longrightarrow> inj_on (m(k := None)) (dom (m(k := None)))"
  by (auto simp: inj_on_def dom_def)

lemma inj_on_fresh_upd:
  assumes "inj_on m (dom m)" "v \<notin> ran m"
  shows "inj_on (m(k \<mapsto> v)) (dom (m(k \<mapsto> v)))"
  using assms by (auto simp: inj_on_def dom_def ran_def)

lemma mpe_wf_allocate:
  assumes "mpe_wf s"
  shows "mpe_wf (snd (allocateChannel n s))"
proof (cases "\<not> truthy n")
  case True
  then show ?thesis using assms by (simp add: allocateChannel_def)
next
  case tr: False
  show ?thesis
  proof (cases "activeNotes s n")
    case (Some c)
    then have "n \<in> set (channelUsageOrder s)" using assms by (auto simp: mpe_wf_def)
    then show ?thesis using assms Some tr
      by (auto simp: allocateChannel_def mpe_wf_def assigned_def)
  next
    case None
    show ?thesis
    proof (cases "channelPool s")
      case (Cons c pool)
      have inj: "inj_on (activeNotes s) (dom (activeNotes s))"
        using assms by (simp add: mpe_wf_def)
      have cfresh: "c \<notin> ran (activeNotes s)"
        using assms Cons by (auto simp: mpe_wf_def assigned_def)
      have inj2: "inj_on ((activeNotes s)(n \<mapsto> c)) (dom ((activeNotes s)(n \<mapsto> c)))"
        by (rule inj_on_fresh_upd[OF inj cfresh])
      have st: "snd (allocateChannel n s) =
          s\<lparr>channelPool := pool, activeNotes := (activeNotes s)(n \<mapsto> c),
            channelUsageOrder := channelUsageOrder s @ [n]\<rparr>"
        using None tr Cons by (simp add: allocateChannel_def)
      have d: "distinct (channelUsageOrder s @ [n])"
        "set (channelUsageOrder s @ [n]) = dom ((activeNotes s)(n \<mapsto> c))"
        using assms None by (auto simp: mpe_wf_def dom_def)
      have r: "ran ((activeNotes s)(n \<mapsto> c)) = insert c (ran (activeNotes s))"
        using None by simp
      show ?thesis unfolding st using assms inj2 d r Cons
        by (auto simp: mpe_wf_def assigned_def)
    next
      case Nil
      show ?thesis
      proof (cases "channelUsageOrder s")
        case Nil2: Nil
        then show ?thesis using assms None tr Nil by (simp add: allocateChannel_def)
      next
        case (Cons r order)
        have uo: "set (channelUsageOrder s) = dom (activeNotes s)"
          using assms by (simp add: mpe_wf_def)
        have "r \<in> set (channelUsageOrder s)" using Cons by simp
        then have "r \<in> dom (activeNotes s)" unfolding uo .
        then obtain c where c: "activeNotes s r = Some c" by blast
        have inj: "inj_on (activeNotes s) (dom (activeNotes s))" using assms by (simp add: mpe_wf_def)
        have rn: "r \<noteq> n" using c None by auto
        let ?m = "(activeNotes s)(r := None)"
        have ran1: "ran ?m = ran (activeNotes s) - {c}" by (rule ran_delete_inj[OF inj c])
        have inj1: "inj_on ?m (dom ?m)" by (rule inj_on_delete[OF inj])
        have "c \<notin> ran ?m" using ran1 by simp
        then have inj2: "inj_on (?m(n \<mapsto> c)) (dom (?m(n \<mapsto> c)))" by (rule inj_on_fresh_upd[OF inj1])
        have mn: "?m n = None" using None by simp
        have "ran (?m(n \<mapsto> c)) = insert c (ran ?m)" using mn by simp
        also have "\<dots> = insert c (ran (activeNotes s) - {c})" by (simp only: ran1)
        also have "\<dots> = ran (activeNotes s)"
        proof -
          have "c \<in> ran (activeNotes s)" using c by (rule ranI)
          then show ?thesis by blast
        qed
        finally have ran2: "ran (?m(n \<mapsto> c)) = ran (activeNotes s)" .
        have st: "snd (allocateChannel n s) =
            s\<lparr>activeNotes := ?m(n \<mapsto> c), channelUsageOrder := order @ [n]\<rparr>"
          using None tr Nil Cons c by (simp add: allocateChannel_def map_get_def)
        have du: "distinct (channelUsageOrder s)" using assms by (simp add: mpe_wf_def)
        have nn: "n \<notin> set (channelUsageOrder s)" unfolding uo using None by blast
        have d1: "distinct (order @ [n])" using du nn Cons by simp
        have "set order = set (channelUsageOrder s) - {r}" using du Cons by auto
        then have d2: "set (order @ [n]) = dom (?m(n \<mapsto> c))"
          unfolding uo by auto
        note d = d1 d2
        show ?thesis unfolding st using assms inj2 ran2 d
          by (simp add: mpe_wf_def assigned_def)
      qed
    qed
  qed
qed

lemma mpe_wf_release:
  assumes "mpe_wf s"
  shows "mpe_wf (releaseChannel n s)"
proof (cases "truthy n \<and> activeNotes s n \<noteq> None")
  case False
  then show ?thesis using assms by (auto simp: releaseChannel_def)
next
  case True
  then obtain c where c: "activeNotes s n = Some c" by auto
  have inj: "inj_on (activeNotes s) (dom (activeNotes s))" using assms by (simp add: mpe_wf_def)
  let ?m = "(activeNotes s)(n := None)"
  have ran1: "ran ?m = ran (activeNotes s) - {c}" by (rule ran_delete_inj[OF inj c])
  have inj1: "inj_on ?m (dom ?m)" by (rule inj_on_delete[OF inj])
  have cin: "c \<in> ran (activeNotes s)" using c by (rule ranI)
  then have cm: "c \<in> member_chans" "c \<notin> set (channelPool s)"
    using assms by (auto simp: mpe_wf_def assigned_def)
  then have cn: "c \<noteq> Null" "c \<noteq> Chan MPE_MASTER_CHANNEL"
    by (auto simp: member_chans_simps MPE_MASTER_CHANNEL_def)
  have st: "releaseChannel n s =
      s\<lparr>activeNotes := ?m, channelUsageOrder := remove1 n (channelUsageOrder s),
        channelPool := sort_pool (channelPool s @ [c])\<rparr>"
    using True c cm cn by (simp add: releaseChannel_def map_get_def Let_def)
  have d: "distinct (remove1 n (channelUsageOrder s))"
     "set (remove1 n (channelUsageOrder s)) = dom ?m"
    using assms by (auto simp: mpe_wf_def)
  show ?thesis unfolding st using assms ran1 inj1 d cm cin
    by (auto simp: mpe_wf_def assigned_def set_sort_pool distinct_sort_pool)
qed

lemma mpe_wf_step: "mpe_wf s \<Longrightarrow> mpe_wf (mpe_step s c)"
  by (cases c) (simp_all add: mpe_wf_allocate mpe_wf_release mpe_wf_reset)

lemma mpe_wf_foldl: "mpe_wf s \<Longrightarrow> mpe_wf (foldl mpe_step s cs)"
  by (induction cs arbitrary: s) (simp_all add: mpe_wf_step)

lemma mpe_wf_run: "mpe_wf (mpe_run cs)"
  by (simp add: mpe_run_def mpe_wf_foldl mpe_wf_reset)

lemma mpe_wf_pool_invariant:
  assumes "mpe_wf s"
  shows "pool_invariant s"
proof -
  have sub: "set (channelPool s) \<union> assigned s = member_chans"
    using assms by (simp add: mpe_wf_def)
  then have "set (channelPool s) \<subseteq> member_chans" by blast
  then have "Chan MPE_MASTER_CHANNEL \<notin> set (channelPool s)"
    using member_chans_simps(3) by (auto simp: MPE_MASTER_CHANNEL_def)
  then show ?thesis using assms sub by (simp add: mpe_wf_def pool_invariant_def)
qed

lemma allocate_from_pool:
  assumes "truthy n" "activeNotes s n = None" "channelPool s = c # pool"
  shows "allocateChannel n s =
    (Plain c, s\<lparr>channelPool := pool, activeNotes := (activeNotes s)(n \<mapsto> c),
                 channelUsageOrder := channelUsageOrder s @ [n]\<rparr>)"
  using assms by (simp add: allocateChannel_def)

lemma allocate_steal:
  assumes "truthy n" "activeNotes s n = None" "channelPool s = []"
    "channelUsageOrder s = r # order"
  shows "allocateChannel n s =
    (Reused (map_get (activeNotes s) r) r,
     s\<lparr>activeNotes := ((activeNotes s)(r := None))(n \<mapsto> map_get (activeNotes s) r),
       channelUsageOrder := order @ [n]\<rparr>)"
  using assms by (simp add: allocateChannel_def Let_def)

lemma allocateAll_from_pool:
  assumes "distinct ns" "\<forall>n\<in>set ns. truthy n \<and> activeNotes s n = None"
    "length ns \<le> length (channelPool s)"
  shows "fst (allocateAll ns s) = map Plain (take (length ns) (channelPool s))
    \<and> channelPool (snd (allocateAll ns s)) = drop (length ns) (channelPool s)
    \<and> channelUsageOrder (snd (allocateAll ns s)) = channelUsageOrder s @ ns
    \<and> (\<forall>i<length ns. activeNotes (snd (allocateAll ns s)) (ns ! i) = Some (channelPool s ! i))
    \<and> (\<forall>k. k \<notin> set ns \<longrightarrow> activeNotes (snd (allocateAll ns s)) k = activeNotes s k)"
  using assms
proof (induction ns arbitrary: s)
  case Nil
  then show ?case by simp
next
  case (Cons n ns)
  from Cons.prems obtain c pool where p: "channelPool s = c # pool"
    by (cases "channelPool s") auto
  let ?s1 = "s\<lparr>channelPool := pool, activeNotes := (activeNotes s)(n \<mapsto> c),
                 channelUsageOrder := channelUsageOrder s @ [n]\<rparr>"
  have a: "allocateChannel n s = (Plain c, ?s1)"
    using Cons.prems p by (simp add: allocate_from_pool)
  have ih: "fst (allocateAll ns ?s1) = map Plain (take (length ns) (channelPool ?s1))
    \<and> channelPool (snd (allocateAll ns ?s1)) = drop (length ns) (channelPool ?s1)
    \<and> channelUsageOrder (snd (allocateAll ns ?s1)) = channelUsageOrder ?s1 @ ns
    \<and> (\<forall>i<length ns. activeNotes (snd (allocateAll ns ?s1)) (ns ! i) = Some (channelPool ?s1 ! i))
    \<and> (\<forall>k. k \<notin> set ns \<longrightarrow> activeNotes (snd (allocateAll ns ?s1)) k = activeNotes ?s1 k)"
    by (rule Cons.IH) (use Cons.prems p in auto)
  have un: "allocateAll (n # ns) s = (Plain c # fst (allocateAll ns ?s1), snd (allocateAll ns ?s1))"
    by (simp add: a Let_def)
  have nn: "n \<notin> set ns" using Cons.prems by simp
  show ?case unfolding un using ih p nn
    by (auto simp: nth_Cons split: nat.splits)
qed

lemma member_channels_upt: "MPE_MEMBER_CHANNELS = [1..<16]"
proof -
  have "map (\<lambda>i. i + 1) [0..<15] = map Suc [0..<15]" by simp
  also have "\<dots> = [Suc 0..<Suc 15]" by (rule map_Suc_upt)
  finally show ?thesis by (simp add: MPE_MEMBER_CHANNELS_def)
qed

lemma reset_fields:
  "channelPool resetMPEState = map Chan [1..<16]"
  "activeNotes resetMPEState = Map.empty"
  "channelUsageOrder resetMPEState = []"
  by (simp_all add: resetMPEState_def member_channels_upt)

lemma fifteen_from_reset:
  assumes "distinct ns" "\<forall>n\<in>set ns. truthy n" "length ns \<le> 15"
  shows "fst (allocateAll ns resetMPEState) = map (\<lambda>i. Plain (Chan (i + 1))) [0..<length ns]"
    and "channelPool (snd (allocateAll ns resetMPEState)) = map Chan [length ns + 1..<16]"
    and "channelUsageOrder (snd (allocateAll ns resetMPEState)) = ns"
    and "\<forall>i<length ns. activeNotes (snd (allocateAll ns resetMPEState)) (ns ! i) = Some (Chan (i + 1))"
    and "\<forall>k. k \<notin> set ns \<longrightarrow> activeNotes (snd (allocateAll ns resetMPEState)) k = None"
proof -
  have pre: "\<forall>n\<in>set ns. truthy n \<and> activeNotes resetMPEState n = None"
    "length ns \<le> length (channelPool resetMPEState)"
    using assms by (simp_all add: reset_fields)
  note g = allocateAll_from_pool[OF assms(1) pre, unfolded reset_fields]
  show "fst (allocateAll ns resetMPEState) = map (\<lambda>i. Plain (Chan (i + 1))) [0..<length ns]"
  proof (rule nth_equalityI)
    show "length (fst (allocateAll ns resetMPEState)) = length (map (\<lambda>i. Plain (Chan (i + 1))) [0..<length ns])"
      using g assms(3) by simp
  next
    fix i assume "i < length (fst (allocateAll ns resetMPEState))"
    then have i: "i < length ns" using g assms(3) by simp
    then show "fst (allocateAll ns resetMPEState) ! i = map (\<lambda>i. Plain (Chan (i + 1))) [0..<length ns] ! i"
      using g assms(3) by simp
  qed
  show "channelPool (snd (allocateAll ns resetMPEState)) = map Chan [length ns + 1..<16]"
    using g by (simp add: drop_map drop_upt)
  show "channelUsageOrder (snd (allocateAll ns resetMPEState)) = ns"
    using g by simp
  show "\<forall>i<length ns. activeNotes (snd (allocateAll ns resetMPEState)) (ns ! i) = Some (Chan (i + 1))"
    using g assms(3) by simp
  show "\<forall>k. k \<notin> set ns \<longrightarrow> activeNotes (snd (allocateAll ns resetMPEState)) k = None"
    using g by simp
qed


lemma mpe_wf_allocateAll: "mpe_wf s \<Longrightarrow> mpe_wf (snd (allocateAll ns s))"
proof (induction ns arbitrary: s)
  case Nil
  then show ?case by simp
next
  case (Cons n ns)
  have "mpe_wf (snd (allocateChannel n s))" using Cons.prems by (rule mpe_wf_allocate)
  then have "mpe_wf (snd (allocateAll ns (snd (allocateChannel n s))))" by (rule Cons.IH)
  then show ?case by (simp add: Let_def)
qed





text \<open>
  Claim C10. After every sequence of \<open>allocateChannel\<close>, \<open>releaseChannel\<close> and
  \<open>resetMPEState\<close> calls, the free pool has no duplicate entry, does not contain the
  master channel 0, is disjoint from the channels assigned in the active-note map, and
  every channel of either is one of the member channels 1 to 15.
\<close>

theorem mpe_pool_invariant_every_run: "pool_invariant (mpe_run calls)"
  by (rule mpe_wf_pool_invariant[OF mpe_wf_run])

theorem mpe_pool_invariant_every_run_witness:
  "pool_invariant (mpe_run [AllocateChannel (StrId ''1_60''), AllocateChannel (StrId ''2_64''),
     ReleaseChannel (StrId ''1_60''), ResetMPEState, AllocateChannel (StrId ''3_67'')])"
  using mpe_pool_invariant_every_run[of "[AllocateChannel (StrId ''1_60''), AllocateChannel (StrId ''2_64''),
     ReleaseChannel (StrId ''1_60''), ResetMPEState, AllocateChannel (StrId ''3_67'')]"]
  by simp

section \<open>Properties of the tuning table\<close>

lemma js_round_0: "js_round 0 = 0" by (simp add: js_round_def)

lemma ratio_zero: "ratio_or_one (JI_RATIOS isMinor) 0 = 1"
  by (simp add: ratio_or_one_def JI_RATIOS_def JI_RATIOS_major_def JI_RATIOS_minor_def)

lemma js_rem_range: "- 12 < js_rem a 12" "js_rem a 12 < 12"
proof -
  have "0 \<le> (- a) mod 12" "(- a) mod 12 < 12" "0 \<le> a mod 12" "a mod 12 < 12" by simp_all
  then show "- 12 < js_rem a 12" "js_rem a 12 < 12" unfolding js_rem_def by auto
qed

lemma js_rem_mod: "js_rem a 12 mod 12 = a mod 12"
  by (simp add: js_rem_def mod_minus_eq)

lemma js_rem_nonneg: "0 \<le> a \<Longrightarrow> js_rem a 12 = a mod 12"
  by (simp add: js_rem_def)

lemma js_rem_interval:
  assumes "0 \<le> pc" "pc < 12"
  shows "js_rem (pc - js_rem keyRoot 12 + 12) 12 = (pc - keyRoot) mod 12"
proof -
  define r where "r = js_rem keyRoot 12"
  have r1: "- 12 < r" "r < 12" unfolding r_def by (rule js_rem_range)+
  have r2: "r mod 12 = keyRoot mod 12" unfolding r_def by (rule js_rem_mod)
  have "0 \<le> pc - r + 12" using assms r1 by linarith
  then have "js_rem (pc - r + 12) 12 = (pc - r + 12) mod 12" by (rule js_rem_nonneg)
  also have "\<dots> = (pc - r) mod 12" by simp
  also have "\<dots> = (pc - keyRoot) mod 12" by (rule mod_diff_cong[OF refl r2])
  finally show ?thesis unfolding r_def .
qed

lemma js_rem_tonic: "js_rem (keyRoot mod 12 - js_rem keyRoot 12 + 12) 12 = 0"
proof -
  have "js_rem (keyRoot mod 12 - js_rem keyRoot 12 + 12) 12 = (keyRoot mod 12 - keyRoot) mod 12"
    by (rule js_rem_interval) simp_all
  also have "\<dots> = (keyRoot - keyRoot) mod 12" by (simp only: mod_diff_left_eq)
  finally show ?thesis by simp
qed

lemma scaleOctaveEntry_tonic: "scaleOctaveEntry keyRoot isMinor (keyRoot mod 12) = 0"
  by (simp add: scaleOctaveEntry_def js_rem_tonic ratio_zero js_round_0)

lemma scaleOctaveEntry_mod:
  assumes "0 \<le> pc" "pc < 12"
  shows "scaleOctaveEntry keyRoot isMinor pc =
    real_of_int (js_round ((1200 * log 2 (ratio_or_one (JI_RATIOS isMinor) ((pc - keyRoot) mod 12))
       - real_of_int ((pc - keyRoot) mod 12) * 100) * 100)) / 100"
  by (simp add: scaleOctaveEntry_def js_rem_interval[OF assms] Let_def)

lemma table_nth: "p < 12 \<Longrightarrow>
  calculateScaleOctaveTuning keyRoot isMinor ! p = scaleOctaveEntry keyRoot isMinor (int p)"
  by (simp add: calculateScaleOctaveTuning_def)

lemma js_rem_multiple:
  assumes "a mod 12 = 0"
  shows "js_rem a 12 = 0"
proof -
  have "js_rem a 12 mod 12 = 0" using assms by (simp only: js_rem_mod)
  then show ?thesis using js_rem_range[of a] by presburger
qed

lemma note_tonic:
  assumes "midiNote mod 12 = getKeyRoot keyName mod 12"
  shows "calculateJICentsForNote midiNote keyName = 0"
proof -
  have "(midiNote - getKeyRoot keyName + 144) mod 12 = 0" using assms by presburger
  then have z: "js_rem (midiNote - getKeyRoot keyName + 144) 12 = 0" by (rule js_rem_multiple)
  show ?thesis
    unfolding calculateJICentsForNote_def Let_def z ratio_zero ratioToCentsDeviation_def
    by simp
qed

text \<open>
  Claim C1. The tuning table is a function of the key alone: it has 12 entries, it
  depends on the root only through its pitch class and on the mode, and its entry at the
  tonic pitch class (root mod 12) is exactly 0 cents, for every integer root and either
  mode. The per-note deviation \<open>calculateJICentsForNote\<close> is 0 as well for every
  note of the tonic's pitch class.
\<close>

theorem tonic_deviation_zero:
  "length (calculateScaleOctaveTuning keyRoot isMinor) = 12
   \<and> calculateScaleOctaveTuning keyRoot isMinor ! nat (keyRoot mod 12) = 0
   \<and> (keyRoot mod 12 = keyRoot' mod 12 \<longrightarrow>
        calculateScaleOctaveTuning keyRoot isMinor = calculateScaleOctaveTuning keyRoot' isMinor)
   \<and> (midiNote mod 12 = getKeyRoot keyName mod 12 \<longrightarrow>
        calculateJICentsForNote midiNote keyName = 0)"
proof (intro conjI impI)
  show "length (calculateScaleOctaveTuning keyRoot isMinor) = 12"
    by (simp add: calculateScaleOctaveTuning_def)
  have p: "nat (keyRoot mod 12) < 12" by simp
  have "0 \<le> keyRoot mod 12" by simp
  then show "calculateScaleOctaveTuning keyRoot isMinor ! nat (keyRoot mod 12) = 0"
    by (simp add: table_nth[OF p] scaleOctaveEntry_tonic)
next
  assume e: "keyRoot mod 12 = keyRoot' mod 12"
  have ent: "scaleOctaveEntry keyRoot isMinor (int p) = scaleOctaveEntry keyRoot' isMinor (int p)"
    if "p < 12" for p
  proof -
    have m: "(int p - keyRoot) mod 12 = (int p - keyRoot') mod 12"
      by (rule mod_diff_cong[OF refl e])
    have r: "0 \<le> int p" "int p < 12" using that by simp_all
    show ?thesis unfolding scaleOctaveEntry_mod[OF r] m ..
  qed
  show "calculateScaleOctaveTuning keyRoot isMinor = calculateScaleOctaveTuning keyRoot' isMinor"
    unfolding calculateScaleOctaveTuning_def
  proof (rule map_cong[OF refl])
    fix x assume "x \<in> set [0..<12]"
    then have "x < 12" by simp
    then show "scaleOctaveEntry keyRoot isMinor (int x) = scaleOctaveEntry keyRoot' isMinor (int x)"
      by (rule ent)
  qed
next
  assume "midiNote mod 12 = getKeyRoot keyName mod 12"
  then show "calculateJICentsForNote midiNote keyName = 0" by (rule note_tonic)
qed

theorem tonic_deviation_zero_witness:
  "calculateScaleOctaveTuning 67 True ! 7 = 0
   \<and> calculateScaleOctaveTuning 67 True = calculateScaleOctaveTuning 7 True
   \<and> calculateJICentsForNote 81 ''Am'' = 0"
proof -
  have k: "(81::int) mod 12 = getKeyRoot ''Am'' mod 12"
    by (simp add: getKeyRoot_def KEY_ROOTS_def)
  have m: "(67::int) mod 12 = 7 mod 12" by simp
  have n: "nat ((67::int) mod 12) = 7" by simp
  note t = tonic_deviation_zero[of 67 True 7 81 "''Am''"]
  have a: "calculateScaleOctaveTuning 67 True ! 7 = 0"
    using t[THEN conjunct2, THEN conjunct1] unfolding n .
  have b: "calculateScaleOctaveTuning 67 True = calculateScaleOctaveTuning 7 True"
    using t[THEN conjunct2, THEN conjunct2, THEN conjunct1] m by (rule mp)
  have c: "calculateJICentsForNote 81 ''Am'' = 0"
    using t[THEN conjunct2, THEN conjunct2, THEN conjunct2] k by (rule mp)
  show ?thesis using a b c by (intro conjI)
qed

lemma log2_lower_cert:
  fixes a e n m k x :: nat
  assumes "a * 2 ^ e \<le> x ^ n" and "2 ^ k < a ^ m * x"
  shows "real (k + m * e) < real (n * m + 1) * log 2 (real x)"
proof -
  have "(a * 2 ^ e) ^ m \<le> (x ^ n) ^ m" using assms(1) by (rule power_mono) simp
  then have "a ^ m * 2 ^ (e * m) \<le> x ^ (n * m)"
    by (simp add: power_mult_distrib power_mult)
  then have A: "a ^ m * 2 ^ (e * m) * x \<le> x ^ (n * m) * x" by (rule mult_le_mono1)
  have B: "2 ^ k * 2 ^ (e * m) < a ^ m * x * 2 ^ (e * m)"
    using assms(2) by simp
  have "(2::nat) ^ (k + m * e) = 2 ^ k * 2 ^ (e * m)" by (simp add: power_add mult.commute)
  also have "\<dots> < a ^ m * x * 2 ^ (e * m)" by (rule B)
  also have "\<dots> = a ^ m * 2 ^ (e * m) * x" by (simp only: ac_simps)
  also have "\<dots> \<le> x ^ (n * m) * x" by (rule A)
  also have "\<dots> = x ^ (n * m + 1)" by simp
  finally have "(2::nat) ^ (k + m * e) < x ^ (n * m + 1)" .
  then have "real (k + m * e) < log 2 (real (x ^ (n * m + 1)))"
    by (rule less_log2_of_power)
  also have "\<dots> = real (n * m + 1) * log 2 (real x)"
    by (simp only: of_nat_power log_nat_power[OF of_nat_0_le_iff])
  finally show ?thesis .
qed

lemma log2_upper_cert:
  fixes a e n m k x :: nat
  assumes "x ^ n \<le> a * 2 ^ e" and "a ^ m * x < 2 ^ k" and "0 < x"
  shows "real (n * m + 1) * log 2 (real x) < real (k + m * e)"
proof -
  have "(x ^ n) ^ m \<le> (a * 2 ^ e) ^ m" using assms(1) by (rule power_mono) simp
  then have "x ^ (n * m) \<le> a ^ m * 2 ^ (e * m)"
    by (simp add: power_mult_distrib power_mult)
  then have A: "x ^ (n * m) * x \<le> a ^ m * 2 ^ (e * m) * x" by (rule mult_le_mono1)
  have B: "a ^ m * x * 2 ^ (e * m) < 2 ^ k * 2 ^ (e * m)"
    using assms(2) by simp
  have "x ^ (n * m + 1) = x ^ (n * m) * x" by simp
  also have "\<dots> \<le> a ^ m * 2 ^ (e * m) * x" by (rule A)
  also have "\<dots> = a ^ m * x * 2 ^ (e * m)" by (simp only: ac_simps)
  also have "\<dots> < 2 ^ k * 2 ^ (e * m)" by (rule B)
  also have "\<dots> = 2 ^ (k + m * e)" by (simp add: power_add mult.commute)
  finally have lt: "x ^ (n * m + 1) < (2::nat) ^ (k + m * e)" .
  have pos: "0 < x ^ (n * m + 1)" using assms(3) by simp
  have "log 2 (real (x ^ (n * m + 1))) < real (k + m * e)"
    using lt pos by (rule log2_of_power_less)
  moreover have "log 2 (real (x ^ (n * m + 1))) = real (n * m + 1) * log 2 (real x)"
    by (simp only: of_nat_power log_nat_power[OF of_nat_0_le_iff])
  ultimately show ?thesis by simp
qed

lemma log2_15_lower: "2098 < 537 * log 2 (15::real)"
proof -
  have a: "(932084571567::nat) * 2 ^ 222 \<le> 15 ^ 67" by simp
  have b: "(2::nat) ^ 322 < 932084571567 ^ 8 * 15" by simp
  from log2_lower_cert[OF a b] show ?thesis by simp
qed

lemma log2_15_upper: "827 * log 2 (15::real) < 3231"
proof -
  have a: "(15::nat) ^ 59 \<le> 781007334636 * 2 ^ 191" by simp
  have b: "(781007334636::nat) ^ 14 * 15 < 2 ^ 557" by simp
  from log2_upper_cert[OF a b] show ?thesis by simp
qed

lemma log2_16_15: "log 2 (16 / 15 :: real) = 4 - log 2 15"
proof -
  have "log 2 (16 / 15 :: real) = log 2 16 - log 2 15" by (simp add: log_divide)
  moreover have "log 2 (16::real) = 4"
  proof -
    have "log 2 ((2::real) ^ 4) = real 4" by (rule log_pow_cancel) simp_all
    then show ?thesis by simp
  qed
  ultimately show ?thesis by simp
qed

lemma minor_second_cents:
  "2345 / 200 < 1200 * log 2 (16 / 15 :: real) - 100"
  "1200 * log 2 (16 / 15 :: real) - 100 < 2347 / 200"
  using log2_15_lower log2_15_upper unfolding log2_16_15 by simp_all

lemma minor_second_rounded: "js_round ((1200 * log 2 (16 / 15 :: real) - 100) * 100) = 1173"
proof -
  have "1173 \<le> (1200 * log 2 (16 / 15 :: real) - 100) * 100 + 1 / 2"
    "(1200 * log 2 (16 / 15 :: real) - 100) * 100 + 1 / 2 < 1174"
    using minor_second_cents by simp_all
  then show ?thesis unfolding js_round_def by linarith
qed

lemma major_ratio_1: "ratio_or_one (JI_RATIOS False) 1 = 16 / 15"
  by (simp add: ratio_or_one_def JI_RATIOS_def JI_RATIOS_major_def)

lemma key_C: "getKeyRoot ''C'' = 60" "isMinorKey ''C'' = False"
  by (simp_all add: getKeyRoot_def KEY_ROOTS_def isMinorKey_def)

lemma entry_60_1: "scaleOctaveEntry 60 False 1 = 1173 / 100"
proof -
  have i: "js_rem (1 - js_rem 60 12 + 12) 12 = 1" by (simp add: js_rem_def)
  show ?thesis
    unfolding scaleOctaveEntry_def Let_def i major_ratio_1
    using minor_second_rounded by simp
qed

lemma note_61_C: "calculateJICentsForNote 61 ''C'' = 1200 * log 2 (16 / 15) - 100"
proof -
  have i: "js_rem (61 - 60 + 144) 12 = 1" by (simp add: js_rem_def)
  show ?thesis
    unfolding calculateJICentsForNote_def Let_def key_C i major_ratio_1 ratioToCentsDeviation_def
    by simp
qed

text \<open>
  Claim C8. In C major (root 60) the table entry for pitch class 1, which is what a
  note-on for pitch 61 receives, is +11.73 cents: the ratio 16/15 against 100 cents of
  equal temperament, rounded to two decimals. The unrounded per-note deviation
  \<open>calculateJICentsForNote 61 ''C''\<close> is \<open>1200 log\<^sub>2 (16/15) - 100\<close>, within half
  a hundredth of a cent of 11.73.
\<close>

theorem c_sharp_in_c_major:
  "calculateScaleOctaveTuning 60 False ! 1 = 1173 / 100
   \<and> calculateJICentsForNote 61 ''C'' = 1200 * log 2 (16 / 15) - 100
   \<and> \<bar>calculateJICentsForNote 61 ''C'' - 1173 / 100\<bar> < 1 / 200"
proof (intro conjI)
  have "calculateScaleOctaveTuning 60 False ! 1 = scaleOctaveEntry 60 False (int 1)"
    by (rule table_nth) simp
  then show "calculateScaleOctaveTuning 60 False ! 1 = 1173 / 100"
    using entry_60_1 by simp
  show "calculateJICentsForNote 61 ''C'' = 1200 * log 2 (16 / 15) - 100" by (rule note_61_C)
  show "\<bar>calculateJICentsForNote 61 ''C'' - 1173 / 100\<bar> < 1 / 200"
    unfolding note_61_C using minor_second_cents by linarith
qed

section \<open>Properties of the pitch-bend conversion\<close>

lemma split_14bit:
  fixes b :: int
  assumes "0 \<le> b" "b < 16384"
  shows "b AND 0x7F = b mod 128" and "(drop_bit 7 b) AND 0x7F = b div 128"
proof -
  have m: "(0x7F::int) = mask 7" by (simp add: mask_eq_exp_minus_1)
  show "b AND 0x7F = b mod 128" unfolding m by (simp add: take_bit_eq_mask[symmetric] take_bit_eq_mod)
  have d: "drop_bit 7 b = b div 128" by (simp add: drop_bit_eq_div)
  have "0 \<le> b div 128" "b div 128 < 128" using assms by simp_all
  then have "(b div 128) mod 128 = b div 128" by simp
  then show "(drop_bit 7 b) AND 0x7F = b div 128"
    unfolding m d by (simp add: take_bit_eq_mask[symmetric] take_bit_eq_mod)
qed

lemma sendPitchBend_clamps:
  "sendPitchBend (Some sent) (Chan ch) bendValue =
     (3, Some (sent @ [[0xE0 OR int ch,
                        (max (- 8192) (min 8191 bendValue) + 8192) mod 128,
                        (max (- 8192) (min 8191 bendValue) + 8192) div 128]]))"
proof -
  let ?b = "max (- 8192) (min 8191 bendValue) + 8192"
  have r: "0 \<le> ?b" "?b < 16384" by simp_all
  show ?thesis
    unfolding sendPitchBend_def Let_def split_14bit[OF r] by simp
qed

lemma centsToPitchBend_range: "- 8192 \<le> centsToPitchBend c" "centsToPitchBend c \<le> 8191"
  by (simp_all add: centsToPitchBend_def Let_def)

text \<open>
  Claim C7, as stated, fails: a bend value beyond the range is sent. \<open>sendPitchBend\<close>
  with the value 9000 on channel 1 sends the same three bytes as with 8191, the largest
  value of the range, and \<open>centsToPitchBend\<close> turns 250 cents (beyond the 200 cents
  of the bend range) into 8191; neither returns anything but the byte count or the
  clamped value.
\<close>

theorem out_of_range_bend_is_sent_clamped:
  "sendPitchBend (Some []) (Chan 1) 9000 = (3, Some [[225, 127, 127]])
   \<and> sendPitchBend (Some []) (Chan 1) 8191 = (3, Some [[225, 127, 127]])
   \<and> centsToPitchBend 250 = 8191"
  by (simp add: sendPitchBend_def centsToPitchBend_def js_round_def)

text \<open>
  Claim C7, amended. For every bend value, \<open>sendPitchBend\<close> on a member channel sends
  one pitch-bend message whose 14-bit value is the bend value clamped to -8192..8191,
  plus 8192, split into its low and high 7 bits: a value beyond the range is sent at the
  nearest end of the range, never wrapped. \<open>centsToPitchBend\<close> is the rounded
  conversion clamped to the same range.
\<close>

theorem pitch_bend_clamped_not_wrapped:
  "sendPitchBend (Some sent) (Chan ch) bendValue =
     (3, Some (sent @ [[0xE0 OR int ch,
                        (max (- 8192) (min 8191 bendValue) + 8192) mod 128,
                        (max (- 8192) (min 8191 bendValue) + 8192) div 128]]))
   \<and> centsToPitchBend cents = max (- 8192) (min 8191 (js_round (cents / 200 * 8192)))
   \<and> - 8192 \<le> centsToPitchBend cents \<and> centsToPitchBend cents \<le> 8191"
  using sendPitchBend_clamps centsToPitchBend_range
  by (simp add: centsToPitchBend_def)

section \<open>Properties of note forwarding on channel exhaustion\<close>

lemma forward_noteon_steal:
  assumes out: "midiOutput t = Some sent"
    and mts: "\<not> mtsSupported (mts t)"
    and init: "pitchBendRangeInitialized (mpe t)"
    and tr: "truthy (nd_noteId nd)"
    and free: "activeNotes (mpe t) (nd_noteId nd) = None"
    and pool: "channelPool (mpe t) = []"
    and ord: "channelUsageOrder (mpe t) = r # order"
    and own: "activeNotes (mpe t) r = Some (Chan c)"
  shows "forwardNoteExternal nd channel True t =
     Some ([ReusingChannel (Chan c)],
       t\<lparr>mpe := (mpe t)\<lparr>activeNotes := ((activeNotes (mpe t))(r := None))(nd_noteId nd \<mapsto> Chan c),
                          channelUsageOrder := order @ [nd_noteId nd]\<rparr>,
         midiOutput := Some (sent @
           [[0xE0 OR int c, 0, 64],
            [0xE0 OR int c,
             (max (- 8192) (min 8191 (case nd_pitchBend nd of Some b \<Rightarrow> b | None \<Rightarrow> 0)) + 8192) mod 128,
             (max (- 8192) (min 8191 (case nd_pitchBend nd of Some b \<Rightarrow> b | None \<Rightarrow> 0)) + 8192) div 128],
            [0x90 OR int c, nd_note nd, nd_velocity nd]])\<rparr>)"
proof -
  have al: "allocateChannel (nd_noteId nd) (mpe t) =
    (Reused (Chan c) r,
     (mpe t)\<lparr>activeNotes := ((activeNotes (mpe t))(r := None))(nd_noteId nd \<mapsto> Chan c),
       channelUsageOrder := order @ [nd_noteId nd]\<rparr>)"
    using allocate_steal[OF tr free pool ord] own by (simp add: map_get_def)
  have route: "mpeChannelFor nd (Chan channel) True t =
     (Some (Chan c), [ReusingChannel (Chan c)],
      t\<lparr>mpe := (mpe t)\<lparr>activeNotes := ((activeNotes (mpe t))(r := None))(nd_noteId nd \<mapsto> Chan c),
                          channelUsageOrder := order @ [nd_noteId nd]\<rparr>,
        midiOutput := Some (sent @ [[0xE0 OR int c, 0, 64]])\<rparr>)"
    unfolding mpeChannelFor_def using init al out
    by (simp add: sendPitchBend_clamps)
  show ?thesis
    unfolding forwardNoteExternal_def using out mts
    by (simp add: route sendPitchBend_clamps Let_def)
qed

lemma forward_noteon_falsy:
  assumes out: "midiOutput t = Some sent"
    and mts: "\<not> mtsSupported (mts t)"
    and init: "pitchBendRangeInitialized (mpe t)"
    and tr: "\<not> truthy (nd_noteId nd)"
  shows "forwardNoteExternal nd channel True t = Some ([CannotSendNote (nd_note nd)], t)"
proof -
  have al: "allocateChannel (nd_noteId nd) (mpe t) = (Plain Null, mpe t)"
    using tr by (simp add: allocateChannel_def)
  have route: "mpeChannelFor nd (Chan channel) True t = (None, [CannotSendNote (nd_note nd)], t)"
    unfolding mpeChannelFor_def using init al by simp
  show ?thesis
    unfolding forwardNoteExternal_def using out mts by (simp add: route)
qed

lemma exhausted_has_owner:
  assumes wf: "mpe_wf s" and pool: "channelPool s = []"
  shows "\<exists>r order c. channelUsageOrder s = r # order \<and> activeNotes s r = Some (Chan c)
            \<and> 1 \<le> c \<and> c \<le> 15"
proof -
  have as: "assigned s = member_chans" using wf pool by (simp add: mpe_wf_def)
  have "Chan 1 \<in> member_chans" by (simp add: member_chans_simps)
  then have "Chan 1 \<in> ran (activeNotes s)" using as by (simp add: assigned_def)
  then obtain k where "activeNotes s k = Some (Chan 1)" by (auto simp: ran_def)
  then have "k \<in> dom (activeNotes s)" by blast
  then have "k \<in> set (channelUsageOrder s)" using wf by (simp add: mpe_wf_def)
  then obtain r order where ord: "channelUsageOrder s = r # order"
    by (cases "channelUsageOrder s") auto
  then have "r \<in> set (channelUsageOrder s)" by simp
  then have "r \<in> dom (activeNotes s)" using wf by (simp add: mpe_wf_def)
  then obtain x where x: "activeNotes s r = Some x" by blast
  then have "x \<in> ran (activeNotes s)" by (rule ranI)
  then have "x \<in> member_chans" using as by (simp add: assigned_def)
  then obtain c where "x = Chan c" "1 \<le> c" "c \<le> 15" by (auto simp: member_chans_def)
  then show ?thesis using ord x by blast
qed

lemma fifteen_ids_facts:
  "distinct fifteen_ids" "\<forall>n\<in>set fifteen_ids. truthy n" "length fifteen_ids \<le> 15"
  "length fifteen_ids = 15" "StrId ''16_75'' \<notin> set fifteen_ids"
  "fifteen_ids ! 0 = StrId ''1_60''" "0 < length fifteen_ids"
  by (simp_all add: fifteen_ids_def)

lemma fifteen_held_fields:
  "midiOutput fifteen_held = Some []"
  "\<not> mtsSupported (mts fifteen_held)"
  "pitchBendRangeInitialized (mpe fifteen_held)"
  "channelPool (mpe fifteen_held) = []"
  "channelUsageOrder (mpe fifteen_held) = StrId ''1_60'' # tl fifteen_ids"
  "activeNotes (mpe fifteen_held) (StrId ''1_60'') = Some (Chan 1)"
  "activeNotes (mpe fifteen_held) (StrId ''16_75'') = None"
proof -
  note f = fifteen_from_reset[OF fifteen_ids_facts(1,2,3)]
  show "midiOutput fifteen_held = Some []" by (simp add: fifteen_held_def)
  show "\<not> mtsSupported (mts fifteen_held)" by (simp add: fifteen_held_def mts_initial_def)
  show "pitchBendRangeInitialized (mpe fifteen_held)" by (simp add: fifteen_held_def)
  show "channelPool (mpe fifteen_held) = []"
    using f(2) by (simp add: fifteen_held_def fifteen_ids_facts(4))
  have "fifteen_ids = StrId ''1_60'' # tl fifteen_ids" by (simp add: fifteen_ids_def)
  then show "channelUsageOrder (mpe fifteen_held) = StrId ''1_60'' # tl fifteen_ids"
    using f(3) by (simp add: fifteen_held_def)
  have "activeNotes (snd (allocateAll fifteen_ids resetMPEState)) (fifteen_ids ! 0) = Some (Chan (0 + 1))"
    using f(4) fifteen_ids_facts(7) by blast
  then show "activeNotes (mpe fifteen_held) (StrId ''1_60'') = Some (Chan 1)"
    by (simp add: fifteen_held_def fifteen_ids_facts(6))
  show "activeNotes (mpe fifteen_held) (StrId ''16_75'') = None"
    using f(5) fifteen_ids_facts(5) by (simp add: fifteen_held_def)
qed

text \<open>
  Claim C6, as stated, fails: with all fifteen member channels held, the note-on of a
  sixteenth note is not dropped. \<open>allocateChannel\<close> returns the object
  \<open>{channel: 1, reusedNoteId: '1_60'}\<close>, not \<open>null\<close>, and
  \<open>forwardNoteExternal\<close> sends the bend reset, the bend and the note-on 0x91 on
  channel 1, the channel of the oldest held note, with the warning of the reuse only.
\<close>

theorem sixteenth_note_not_dropped:
  "channelPool (mpe fifteen_held) = []
   \<and> fst (allocateChannel (StrId ''16_75'') (mpe fifteen_held)) = Reused (Chan 1) (StrId ''1_60'')
   \<and> map_option fst (forwardNoteExternal sixteenth_note 0 True fifteen_held)
        = Some [ReusingChannel (Chan 1)]
   \<and> map_option (midiOutput \<circ> snd) (forwardNoteExternal sixteenth_note 0 True fifteen_held)
        = Some (Some [[225, 0, 64], [225, 0, 64], [145, 75, 100]])"
proof -
  have id: "nd_noteId sixteenth_note = StrId ''16_75''" by (simp add: sixteenth_note_def)
  have tr: "truthy (nd_noteId sixteenth_note)" by (simp add: id)
  have free: "activeNotes (mpe fifteen_held) (nd_noteId sixteenth_note) = None"
    by (simp add: id fifteen_held_fields)
  have a: "fst (allocateChannel (StrId ''16_75'') (mpe fifteen_held)) = Reused (Chan 1) (StrId ''1_60'')"
    using allocate_steal[OF tr free fifteen_held_fields(4,5)]
    by (simp add: id map_get_def fifteen_held_fields(6))
  note fw = forward_noteon_steal[OF fifteen_held_fields(1,2,3) tr free fifteen_held_fields(4,5,6), of 0]
  have b: "map_option fst (forwardNoteExternal sixteenth_note 0 True fifteen_held)
        = Some [ReusingChannel (Chan 1)]"
    unfolding fw by simp
  have c: "map_option (midiOutput \<circ> snd) (forwardNoteExternal sixteenth_note 0 True fifteen_held)
        = Some (Some [[225, 0, 64], [225, 0, 64], [145, 75, 100]])"
    unfolding fw by (simp add: sixteenth_note_def)
  show ?thesis using fifteen_held_fields(4) a b c by (intro conjI)
qed

text \<open>
  Claim C6, amended. On the MPE backend, when a note-on with a new, truthy note id
  finds the pool empty, \<open>allocateChannel\<close> reuses the channel of the least recently
  used note, a member channel 1 to 15, and takes that note out of the active-note map;
  \<open>forwardNoteExternal\<close> logs the reuse and sends the bend reset, the note's bend and
  the note-on on that channel. The allocator state stays well formed, so the channel has
  one holder. The note is dropped with the warning, and nothing is sent, where
  \<open>allocateChannel\<close> returns \<open>null\<close>: for a falsy note id.
\<close>

theorem exhausted_pool_reuses_oldest_channel:
  assumes wf: "mpe_wf (mpe t)"
    and out: "midiOutput t = Some sent"
    and mts: "\<not> mtsSupported (mts t)"
    and init: "pitchBendRangeInitialized (mpe t)"
    and free: "activeNotes (mpe t) (nd_noteId nd) = None"
    and pool: "channelPool (mpe t) = []"
  shows "(\<not> truthy (nd_noteId nd) \<longrightarrow>
            forwardNoteExternal nd channel True t = Some ([CannotSendNote (nd_note nd)], t))
     \<and> (truthy (nd_noteId nd) \<longrightarrow>
          (\<exists>r order c. channelUsageOrder (mpe t) = r # order
             \<and> activeNotes (mpe t) r = Some (Chan c) \<and> 1 \<le> c \<and> c \<le> 15
             \<and> fst (allocateChannel (nd_noteId nd) (mpe t)) = Reused (Chan c) r
             \<and> forwardNoteExternal nd channel True t =
                 Some ([ReusingChannel (Chan c)],
                   t\<lparr>mpe := (mpe t)\<lparr>activeNotes :=
                                       ((activeNotes (mpe t))(r := None))(nd_noteId nd \<mapsto> Chan c),
                                     channelUsageOrder := order @ [nd_noteId nd]\<rparr>,
                     midiOutput := Some (sent @
                       [[0xE0 OR int c, 0, 64],
                        [0xE0 OR int c,
                         (max (- 8192) (min 8191 (case nd_pitchBend nd of Some b \<Rightarrow> b | None \<Rightarrow> 0)) + 8192) mod 128,
                         (max (- 8192) (min 8191 (case nd_pitchBend nd of Some b \<Rightarrow> b | None \<Rightarrow> 0)) + 8192) div 128],
                        [0x90 OR int c, nd_note nd, nd_velocity nd]])\<rparr>)
             \<and> mpe_wf (snd (allocateChannel (nd_noteId nd) (mpe t)))))"
proof (intro conjI impI)
  assume "\<not> truthy (nd_noteId nd)"
  then show "forwardNoteExternal nd channel True t = Some ([CannotSendNote (nd_note nd)], t)"
    by (rule forward_noteon_falsy[OF out mts init])
next
  assume tr: "truthy (nd_noteId nd)"
  from exhausted_has_owner[OF wf pool] obtain r order c where
    o: "channelUsageOrder (mpe t) = r # order" "activeNotes (mpe t) r = Some (Chan c)"
       "1 \<le> c" "c \<le> 15" by blast
  have a: "fst (allocateChannel (nd_noteId nd) (mpe t)) = Reused (Chan c) r"
    using allocate_steal[OF tr free pool o(1)] o(2) by (simp add: map_get_def)
  note fw = forward_noteon_steal[OF out mts init tr free pool o(1,2), of channel]
  have w: "mpe_wf (snd (allocateChannel (nd_noteId nd) (mpe t)))"
    using wf by (rule mpe_wf_allocate)
  show "\<exists>r order c. channelUsageOrder (mpe t) = r # order
             \<and> activeNotes (mpe t) r = Some (Chan c) \<and> 1 \<le> c \<and> c \<le> 15
             \<and> fst (allocateChannel (nd_noteId nd) (mpe t)) = Reused (Chan c) r
             \<and> forwardNoteExternal nd channel True t =
                 Some ([ReusingChannel (Chan c)],
                   t\<lparr>mpe := (mpe t)\<lparr>activeNotes :=
                                       ((activeNotes (mpe t))(r := None))(nd_noteId nd \<mapsto> Chan c),
                                     channelUsageOrder := order @ [nd_noteId nd]\<rparr>,
                     midiOutput := Some (sent @
                       [[0xE0 OR int c, 0, 64],
                        [0xE0 OR int c,
                         (max (- 8192) (min 8191 (case nd_pitchBend nd of Some b \<Rightarrow> b | None \<Rightarrow> 0)) + 8192) mod 128,
                         (max (- 8192) (min 8191 (case nd_pitchBend nd of Some b \<Rightarrow> b | None \<Rightarrow> 0)) + 8192) div 128],
                        [0x90 OR int c, nd_note nd, nd_velocity nd]])\<rparr>)
             \<and> mpe_wf (snd (allocateChannel (nd_noteId nd) (mpe t)))"
    using o a fw w by blast
qed

lemma mpe_wf_flag: "mpe_wf (s\<lparr>pitchBendRangeInitialized := b\<rparr>) = mpe_wf s"
  by (simp add: mpe_wf_def assigned_def)

lemma fifteen_held_wf: "mpe_wf (mpe fifteen_held)"
  by (simp add: fifteen_held_def mpe_wf_flag mpe_wf_allocateAll mpe_wf_reset)

theorem exhausted_pool_reuses_oldest_channel_witness:
  "mpe_wf (mpe fifteen_held) \<and> midiOutput fifteen_held = Some []
   \<and> \<not> mtsSupported (mts fifteen_held) \<and> pitchBendRangeInitialized (mpe fifteen_held)
   \<and> activeNotes (mpe fifteen_held) (nd_noteId sixteenth_note) = None
   \<and> channelPool (mpe fifteen_held) = []
   \<and> truthy (nd_noteId sixteenth_note)
   \<and> (\<exists>r order c. channelUsageOrder (mpe fifteen_held) = r # order
         \<and> activeNotes (mpe fifteen_held) r = Some (Chan c) \<and> 1 \<le> c \<and> c \<le> 15
         \<and> fst (allocateChannel (nd_noteId sixteenth_note) (mpe fifteen_held)) = Reused (Chan c) r
         \<and> mpe_wf (snd (allocateChannel (nd_noteId sixteenth_note) (mpe fifteen_held))))"
proof -
  have id: "nd_noteId sixteenth_note = StrId ''16_75''" by (simp add: sixteenth_note_def)
  have tr: "truthy (nd_noteId sixteenth_note)" by (simp add: id)
  have free: "activeNotes (mpe fifteen_held) (nd_noteId sixteenth_note) = None"
    by (simp add: id fifteen_held_fields)
  note th = exhausted_pool_reuses_oldest_channel[OF fifteen_held_wf fifteen_held_fields(1,2,3)
      free fifteen_held_fields(4), of 0]
  from th tr have "\<exists>r order c. channelUsageOrder (mpe fifteen_held) = r # order
         \<and> activeNotes (mpe fifteen_held) r = Some (Chan c) \<and> 1 \<le> c \<and> c \<le> 15
         \<and> fst (allocateChannel (nd_noteId sixteenth_note) (mpe fifteen_held)) = Reused (Chan c) r
         \<and> mpe_wf (snd (allocateChannel (nd_noteId sixteenth_note) (mpe fifteen_held)))"
    by blast
  then show ?thesis
    using fifteen_held_wf fifteen_held_fields(1,2,3,4) free tr by blast
qed

section \<open>Properties of predictive tuning\<close>

lemma applyTuning_stale:
  assumes "predictiveTuningActive st"
    and "map_of (predictiveJITable st) note = Some (entry # queue)"
    and "truthy_timestamp entry = Some ts"
    and "now - ts * 1000 > 60000"
  shows "applyTuning note velocity now ks st =
     (reactiveTuning note velocity ks, [StalePrediction note], afterShift entry note queue st)"
  using assms by (simp add: applyTuning_def PREDICTION_STALENESS_THRESHOLD_def)

lemma applyTuning_fresh:
  assumes "predictiveTuningActive st"
    and "map_of (predictiveJITable st) note = Some (entry # queue)"
    and "truthy_timestamp entry = Some ts"
    and "now - ts * 1000 \<le> 60000"
  shows "applyTuning note velocity now ks st =
     (fst (applyPredictiveTuning entry note velocity queue st), [],
      snd (applyPredictiveTuning entry note velocity queue st))"
  using assms
  by (simp add: applyTuning_def PREDICTION_STALENESS_THRESHOLD_def split: prod.splits)

lemma applyTuning_unstamped:
  assumes "predictiveTuningActive st"
    and "map_of (predictiveJITable st) note = Some (entry # queue)"
    and "truthy_timestamp entry = None"
  shows "applyTuning note velocity now ks st =
     (fst (applyPredictiveTuning entry note velocity queue st), [],
      snd (applyPredictiveTuning entry note velocity queue st))"
  using assms by (simp add: applyTuning_def split: prod.splits)

lemma applyPredictiveTuning_eq:
  "applyPredictiveTuning entry note velocity queue st =
     ((note, velocity, case predictedCents entry of Some c \<Rightarrow> centsToPitchBend c | None \<Rightarrow> 0),
      afterShift entry note queue st)"
  by (simp add: applyPredictiveTuning_def Let_def split: option.splits)

lemma centsToPitchBend_5: "centsToPitchBend 5 = 205"
  by (simp add: centsToPitchBend_def js_round_def)

text \<open>
  Claim C5, as stated, fails for a timestamp of 0: the entry is decades old when it is
  consumed at \<open>Date.now() = 1700000000000\<close>, yet the guard \<open>if (entry?.timestamp)\<close>
  takes 0 for a missing timestamp and the entry is applied (bend 205 for its 5 cents),
  with no warning, where reactive tuning would give bend 0.
\<close>

theorem zero_timestamp_prediction_applied:
  "applyTuning 61 100 1700000000000 no_key (one_prediction 0) =
     ((61, 100, 205), [],
      \<lparr>predictiveJITable = [], predictiveTuningActive = False, predictiveSeenIds = {}\<rparr>)
   \<and> reactiveTuning 61 100 no_key = (61, 100, 0)"
proof -
  have a: "predictiveTuningActive (one_prediction 0)"
    "map_of (predictiveJITable (one_prediction 0)) 61 = Some (prediction_at 0 # [])"
    "truthy_timestamp (prediction_at 0) = None"
    by (simp_all add: one_prediction_def prediction_at_def)
  have c: "predictedCents (prediction_at 0) = Some 5"
    by (simp add: predictedCents_def prediction_at_def)
  have s: "afterShift (prediction_at 0) 61 [] (one_prediction 0) =
      \<lparr>predictiveJITable = [], predictiveTuningActive = False, predictiveSeenIds = {}\<rparr>"
    by (simp add: afterShift_def one_prediction_def prediction_at_def)
  have "applyTuning 61 100 1700000000000 no_key (one_prediction 0) =
     ((61, 100, 205), [],
      \<lparr>predictiveJITable = [], predictiveTuningActive = False, predictiveSeenIds = {}\<rparr>)"
    unfolding applyTuning_unstamped[OF a] applyPredictiveTuning_eq c s
    by (simp add: centsToPitchBend_5)
  moreover have "reactiveTuning 61 100 no_key = (61, 100, 0)"
    by (simp add: reactiveTuning_def no_key_def truthy_key_def)
  ultimately show ?thesis by (rule conjI)
qed

text \<open>
  Claim C5, amended. When predictive tuning is active and the queue of the note starts
  with an entry that carries a non-zero timestamp, the entry is taken off the queue; if it
  is more than 60 seconds old (61 seconds, say) it is discarded with the one warning and the
  note gets the reactive tuning, and if it is at most 60 seconds old (59 seconds, say) it is
  applied, with no warning.
\<close>

theorem stale_prediction_discarded_fresh_applied:
  assumes act: "predictiveTuningActive st"
    and q: "map_of (predictiveJITable st) note = Some (EntryObject e # queue)"
    and ts: "p_timestamp e = Some ts" and nz: "ts \<noteq> 0"
  shows "(now - ts * 1000 > 60000 \<longrightarrow>
            applyTuning note velocity now ks st =
              (reactiveTuning note velocity ks, [StalePrediction note],
               afterShift (EntryObject e) note queue st))
     \<and> (now - ts * 1000 \<le> 60000 \<longrightarrow>
            applyTuning note velocity now ks st =
              ((note, velocity,
                case predictedCents (EntryObject e) of Some c \<Rightarrow> centsToPitchBend c | None \<Rightarrow> 0),
               [], afterShift (EntryObject e) note queue st))
     \<and> (now = (ts + 61) * 1000 \<longrightarrow>
            fst (applyTuning note velocity now ks st) = reactiveTuning note velocity ks)
     \<and> (now = (ts + 59) * 1000 \<longrightarrow>
            fst (applyTuning note velocity now ks st) =
              (note, velocity,
               case predictedCents (EntryObject e) of Some c \<Rightarrow> centsToPitchBend c | None \<Rightarrow> 0))"
proof -
  have t: "truthy_timestamp (EntryObject e) = Some ts" using ts nz by simp
  have stale: "applyTuning note velocity now ks st =
              (reactiveTuning note velocity ks, [StalePrediction note],
               afterShift (EntryObject e) note queue st)"
    if "now - ts * 1000 > 60000" for now
    by (rule applyTuning_stale[OF act q t that])
  have fresh: "applyTuning note velocity now ks st =
              ((note, velocity,
                case predictedCents (EntryObject e) of Some c \<Rightarrow> centsToPitchBend c | None \<Rightarrow> 0),
               [], afterShift (EntryObject e) note queue st)"
    if "now - ts * 1000 \<le> 60000" for now
    unfolding applyTuning_fresh[OF act q t that] applyPredictiveTuning_eq by simp
  have a61: "(ts + 61) * 1000 - ts * 1000 > 60000" by (simp add: algebra_simps)
  have a59: "(ts + 59) * 1000 - ts * 1000 \<le> 60000" by (simp add: algebra_simps)
  show ?thesis
  proof (intro conjI impI)
    assume "now - ts * 1000 > 60000"
    then show "applyTuning note velocity now ks st =
              (reactiveTuning note velocity ks, [StalePrediction note],
               afterShift (EntryObject e) note queue st)" by (rule stale)
  next
    assume "now - ts * 1000 \<le> 60000"
    then show "applyTuning note velocity now ks st =
              ((note, velocity,
                case predictedCents (EntryObject e) of Some c \<Rightarrow> centsToPitchBend c | None \<Rightarrow> 0),
               [], afterShift (EntryObject e) note queue st)" by (rule fresh)
  next
    assume n: "now = (ts + 61) * 1000"
    show "fst (applyTuning note velocity now ks st) = reactiveTuning note velocity ks"
      unfolding n stale[OF a61] by simp
  next
    assume n: "now = (ts + 59) * 1000"
    show "fst (applyTuning note velocity now ks st) =
              (note, velocity,
               case predictedCents (EntryObject e) of Some c \<Rightarrow> centsToPitchBend c | None \<Rightarrow> 0)"
      unfolding n fresh[OF a59] by simp
  qed
qed

lemma one_prediction_facts:
  "predictiveTuningActive (one_prediction ts)"
  "map_of (predictiveJITable (one_prediction ts)) 61 =
     Some (EntryObject \<lparr>p_note_id = Some ''n1'', p_cents = Some 5, p_ratio = None,
                          p_timestamp = Some ts\<rparr> # [])"
  "p_timestamp \<lparr>p_note_id = Some ''n1'', p_cents = Some 5, p_ratio = None,
                  p_timestamp = Some ts\<rparr> = Some ts"
  "afterShift (EntryObject \<lparr>p_note_id = Some ''n1'', p_cents = Some 5, p_ratio = None,
                          p_timestamp = Some ts\<rparr>) 61 [] (one_prediction ts) =
     \<lparr>predictiveJITable = [], predictiveTuningActive = False, predictiveSeenIds = {}\<rparr>"
  "predictedCents (EntryObject \<lparr>p_note_id = Some ''n1'', p_cents = Some 5, p_ratio = None,
                          p_timestamp = Some ts\<rparr>) = Some 5"
  by (simp_all add: one_prediction_def prediction_at_def afterShift_def predictedCents_def)

theorem stale_prediction_discarded_fresh_applied_witness:
  "applyTuning 61 100 1700000000000 no_key (one_prediction 1699999939) =
     ((61, 100, 0), [StalePrediction 61],
      \<lparr>predictiveJITable = [], predictiveTuningActive = False, predictiveSeenIds = {}\<rparr>)
   \<and> applyTuning 61 100 1700000000000 no_key (one_prediction 1699999941) =
     ((61, 100, 205), [],
      \<lparr>predictiveJITable = [], predictiveTuningActive = False, predictiveSeenIds = {}\<rparr>)"
proof -
  have r: "reactiveTuning 61 100 no_key = (61, 100, 0)"
    by (simp add: reactiveTuning_def no_key_def truthy_key_def)
  have nz: "(1699999939::real) \<noteq> 0" "(1699999941::real) \<noteq> 0" by simp_all
  have old: "(1700000000000::real) - 1699999939 * 1000 > 60000" by simp
  have new: "(1700000000000::real) - 1699999941 * 1000 \<le> 60000" by simp
  note s = stale_prediction_discarded_fresh_applied[OF one_prediction_facts(1,2,3) nz(1),
      of 1700000000000 100 no_key, THEN conjunct1, THEN mp, OF old]
  note f = stale_prediction_discarded_fresh_applied[OF one_prediction_facts(1,2,3) nz(2),
      of 1700000000000 100 no_key, THEN conjunct2, THEN conjunct1, THEN mp, OF new]
  show ?thesis
    unfolding s f one_prediction_facts(4,5) r by (simp add: centsToPitchBend_5)
qed

section \<open>Properties of capability negotiation\<close>

lemma initMPE_mts: "mts (initMPE t) = mts t"
  by (simp add: initMPE_def split: prod.splits)

lemma initMPE_out: "midiOutput (initMPE (t\<lparr>mts := m\<rparr>)) = midiOutput (initMPE t)"
  by (simp add: initMPE_def split: prod.splits)

lemma detect_no_sysex:
  assumes "midiOutput t = Some sent" "\<not> mtsDetectionAttempted (mts t)"
  shows "currentTuningMode (mts (detectMTSSupport False pref t)) = ''MPE''"
    and "\<not> mtsSupported (mts (detectMTSSupport False pref t))"
    and "mtsFallbackRequested (mts (detectMTSSupport False pref t))"
    and "midiOutput (detectMTSSupport False pref t) = midiOutput (initMPE t)"
  using assms by (simp_all add: detectMTSSupport_def Let_def initMPE_mts initMPE_out)

lemma detect_saved_mpe:
  assumes "midiOutput t = Some sent" "\<not> mtsDetectionAttempted (mts t)"
  shows "currentTuningMode (mts (detectMTSSupport True (Some ''MPE'') t)) = ''MPE''"
    and "\<not> mtsSupported (mts (detectMTSSupport True (Some ''MPE'') t))"
    and "midiOutput (detectMTSSupport True (Some ''MPE'') t) = midiOutput (initMPE t)"
  using assms by (simp_all add: detectMTSSupport_def Let_def initMPE_mts initMPE_out)

lemma build_et: "buildScaleOctaveTuning2Byte (replicate 12 0) \<noteq> None"
  by (simp add: buildScaleOctaveTuning2Byte_def)

lemma detect_mts:
  assumes "midiOutput t = Some sent" "\<not> mtsDetectionAttempted (mts t)" "pref \<noteq> Some ''MPE''"
  shows "currentTuningMode (mts (detectMTSSupport True pref t)) = ''MTS''"
    and "mtsSupported (mts (detectMTSSupport True pref t))"
    and "midiOutput (detectMTSSupport True pref t)
           = Some (sent @ [the (buildScaleOctaveTuning2Byte (replicate 12 0))])"
proof -
  obtain msg where msg: "buildScaleOctaveTuning2Byte (replicate 12 0) = Some msg"
    using build_et by blast
  have s: "sendScaleOctaveTuning (Some sent) (replicate 12 0) m =
      ((True, length msg), Some (sent @ [msg]),
       m\<lparr>mtsMessagesSent := mtsMessagesSent m + 1, currentScaleOctaveTuning := replicate 12 0\<rparr>)" for m
    by (simp add: sendScaleOctaveTuning_def msg)
  have d: "detectMTSSupport True pref t =
      t\<lparr>mts := (mts t)\<lparr>mtsDetectionAttempted := True, mtsSupported := True,
                            currentTuningMode := ''MTS'',
                            mtsMessagesSent := mtsMessagesSent (mts t) + 1,
                            currentScaleOctaveTuning := replicate 12 0\<rparr>,
        midiOutput := Some (sent @ [msg])\<rparr>"
    using assms by (simp add: detectMTSSupport_def Let_def s)
  show "currentTuningMode (mts (detectMTSSupport True pref t)) = ''MTS''"
    and "mtsSupported (mts (detectMTSSupport True pref t))"
    and "midiOutput (detectMTSSupport True pref t)
           = Some (sent @ [the (buildScaleOctaveTuning2Byte (replicate 12 0))])"
    unfolding d by (simp_all add: msg)
qed

lemma probeIdentity_flags:
  "sysExSupported (snd (probeIdentity a st)) = sysExSupported st"
  "forcePbOnly (snd (probeIdentity a st)) = forcePbOnly st"
  "lastDeviceId (snd (probeIdentity a st)) = lastDeviceId st"
  by (simp_all add: probeIdentity_def s5_send_def Let_def split: option.splits)

lemma probeMtsDump_flags:
  "sysExSupported (snd (probeMtsDump d p a st)) = sysExSupported st"
  "forcePbOnly (snd (probeMtsDump d p a st)) = forcePbOnly st"
  "lastDeviceId (snd (probeMtsDump d p a st)) = lastDeviceId st"
  by (simp_all add: probeMtsDump_def s5_send_def Let_def)

lemma after_flags:
  "sysExSupported (afterOutputSelected a1 a2 st) = sysExSupported st"
  "forcePbOnly (afterOutputSelected a1 a2 st) = forcePbOnly st"
  by (simp_all add: afterOutputSelected_def Let_def case_prod_beta updateStatus_def
      probeIdentity_flags probeMtsDump_flags split: option.splits)

lemma probeIdentity_reply:
  assumes "s5_midiOutput st = Some sent" "s5_midiInput st"
  shows "fst (probeIdentity a st) =
     map_option (\<lambda>rsp. (rsp ! 2) AND 0x7F)
       (find (\<lambda>d. byte_at d 0 = Some 0xF0 \<and> isIdentityReply d) a)"
  using assms
  by (simp add: probeIdentity_def Let_def waitForSysex_def s5_send_def split: option.splits)

lemma after_device_id:
  assumes "s5_midiOutput st = Some sent" "s5_midiInput st"
  shows "lastDeviceId (afterOutputSelected a1 a2 st) =
     (case find (\<lambda>d. byte_at d 0 = Some 0xF0 \<and> isIdentityReply d) a1 of
        None \<Rightarrow> lastDeviceId st
      | Some rsp \<Rightarrow> (rsp ! 2) AND 0x7F)"
proof -
  let ?st0 = "updateStatus ''Probing device capabilities...'' False st"
  have p: "s5_midiOutput ?st0 = Some sent" "s5_midiInput ?st0" "lastDeviceId ?st0 = lastDeviceId st"
    using assms by (simp_all add: updateStatus_def)
  show ?thesis
    unfolding afterOutputSelected_def Let_def case_prod_beta probeIdentity_reply[OF p(1,2)]
    by (simp add: probeIdentity_flags probeMtsDump_flags updateStatus_def split: option.splits)
qed

text \<open>
  Claim C9, as stated, fails in its last part: no reply does not demote to pitch bend.
  In the probing snapshot, with no message arriving during either wait, the status text
  becomes "MTS support is unknown" and notes are still tuned by SysEx; in the module
  \<open>detectMTSSupport\<close>, with SysEx permission and no saved preference, the mode is
  MTS without any reply having been awaited.
\<close>

theorem no_probe_reply_keeps_sysex:
  "tunesBySysEx (afterOutputSelected [] [] (s5_initial (Some []) True))
   \<and> statusText (afterOutputSelected [] [] (s5_initial (Some []) True))
       = ''MTS support is unknown. You can run an audible test.''
   \<and> currentTuningMode (mts (detectMTSSupport True None fresh_system)) = ''MTS''
   \<and> mtsSupported (mts (detectMTSSupport True None fresh_system))"
proof -
  have a: "tunesBySysEx (afterOutputSelected [] [] (s5_initial (Some []) True))"
    by (simp add: tunesBySysEx_def after_flags s5_initial_def)
  have b: "statusText (afterOutputSelected [] [] (s5_initial (Some []) True))
       = ''MTS support is unknown. You can run an audible test.''"
    by (simp add: afterOutputSelected_def Let_def case_prod_beta probeIdentity_def probeMtsDump_def
        waitForSysex_def s5_send_def updateStatus_def s5_initial_def)
  have f: "midiOutput fresh_system = Some []" "\<not> mtsDetectionAttempted (mts fresh_system)"
    by (simp_all add: fresh_system_def mts_initial_def)
  have n: "(None :: string option) \<noteq> Some ''MPE''" by simp
  show ?thesis using a b detect_mts(1,2)[OF f n] by (intro conjI)
qed

text \<open>
  Claim C9, amended. With an output and detection not yet attempted:
  without SysEx permission \<open>detectMTSSupport\<close> goes directly to MPE; with it, a saved
  preference \<open>MPE\<close> selects MPE and sends nothing but the pitch-bend range set-up, so
  no probe; otherwise the mode is MTS at once, after one equal-temperament scale/octave
  message and with no reply awaited. In the probing snapshot \<open>afterOutputSelected\<close>
  records the device id of an identity reply (bits 0 to 6 of its third byte) and keeps the
  old id without one; whatever arrives, the flags that decide between SysEx and pitch
  bend stay as they were.
\<close>

theorem capability_negotiation:
  assumes "midiOutput t = Some sent" and "\<not> mtsDetectionAttempted (mts t)"
    and "s5_midiOutput st = Some sent'" and "s5_midiInput st"
  shows "currentTuningMode (mts (detectMTSSupport False pref t)) = ''MPE''
     \<and> \<not> mtsSupported (mts (detectMTSSupport False pref t))
     \<and> midiOutput (detectMTSSupport False pref t) = midiOutput (initMPE t)
     \<and> currentTuningMode (mts (detectMTSSupport True (Some ''MPE'') t)) = ''MPE''
     \<and> \<not> mtsSupported (mts (detectMTSSupport True (Some ''MPE'') t))
     \<and> midiOutput (detectMTSSupport True (Some ''MPE'') t) = midiOutput (initMPE t)
     \<and> (pref \<noteq> Some ''MPE'' \<longrightarrow>
          currentTuningMode (mts (detectMTSSupport True pref t)) = ''MTS''
          \<and> mtsSupported (mts (detectMTSSupport True pref t))
          \<and> midiOutput (detectMTSSupport True pref t)
               = Some (sent @ [the (buildScaleOctaveTuning2Byte (replicate 12 0))]))
     \<and> lastDeviceId (afterOutputSelected arrivals1 arrivals2 st) =
          (case find (\<lambda>d. byte_at d 0 = Some 0xF0 \<and> isIdentityReply d) arrivals1 of
             None \<Rightarrow> lastDeviceId st
           | Some rsp \<Rightarrow> (rsp ! 2) AND 0x7F)
     \<and> sysExSupported (afterOutputSelected arrivals1 arrivals2 st) = sysExSupported st
     \<and> forcePbOnly (afterOutputSelected arrivals1 arrivals2 st) = forcePbOnly st"
  using detect_no_sysex(1,2,4)[OF assms(1,2)] detect_saved_mpe[OF assms(1,2)]
    detect_mts[OF assms(1,2)] after_device_id[OF assms(3,4)] after_flags
  by (intro conjI impI) simp_all

theorem capability_negotiation_witness:
  "currentTuningMode (mts (detectMTSSupport False None fresh_system)) = ''MPE''
   \<and> currentTuningMode (mts (detectMTSSupport True (Some ''MPE'') fresh_system)) = ''MPE''
   \<and> currentTuningMode (mts (detectMTSSupport True None fresh_system)) = ''MTS''
   \<and> lastDeviceId (afterOutputSelected [identity_reply] [] (s5_initial (Some []) True)) = 0x10
   \<and> lastDeviceId (afterOutputSelected [] [] (s5_initial (Some []) True)) = 0x7F"
proof -
  have f: "midiOutput fresh_system = Some []" "\<not> mtsDetectionAttempted (mts fresh_system)"
    by (simp_all add: fresh_system_def mts_initial_def)
  have s: "s5_midiOutput (s5_initial (Some []) True) = Some []" "s5_midiInput (s5_initial (Some []) True)"
    by (simp_all add: s5_initial_def)
  have n: "(None :: string option) \<noteq> Some ''MPE''" by simp
  note c1 = capability_negotiation[OF f s, of None "[identity_reply]" "[]"]
  note c2 = capability_negotiation[OF f s, of None "[]" "[]"]
  have i: "find (\<lambda>d. byte_at d 0 = Some 0xF0 \<and> isIdentityReply d) [identity_reply] = Some identity_reply"
    by (simp add: identity_reply_def byte_at_def isIdentityReply_def)
  have r: "(identity_reply ! 2) AND 0x7F = 0x10" by (simp add: identity_reply_def)
  have l: "lastDeviceId (s5_initial (Some []) True) = 0x7F" by (simp add: s5_initial_def)
  show ?thesis using c1 c2 n i r l by simp
qed

section \<open>Properties of the rounding to doubles\<close>

lemma roundTiesToEven_error: "\<bar>real_of_int (roundTiesToEven y) - y\<bar> \<le> 1 / 2"
proof -
  have "real_of_int \<lfloor>y\<rfloor> \<le> y" "y < real_of_int \<lfloor>y\<rfloor> + 1" by linarith+
  then show ?thesis by (auto simp: roundTiesToEven_def Let_def)
qed

lemma roundTiesToEven_nonneg: "0 \<le> y \<Longrightarrow> 0 \<le> roundTiesToEven y"
  by (auto simp: roundTiesToEven_def Let_def)

lemma exponent_guess_le:
  fixes x :: real
  assumes "0 < x"
  shows "2 powi (if 1 \<le> x then bitlen \<lfloor>x\<rfloor> - 1 else - bitlen \<lfloor>1 / x\<rfloor>) \<le> x"
proof (cases "1 \<le> x")
  case True
  then have m: "0 < \<lfloor>x\<rfloor>" by simp
  then have b: "0 \<le> bitlen \<lfloor>x\<rfloor> - 1" by (auto simp: bitlen_alt_def)
  have "(2::int) ^ nat (bitlen \<lfloor>x\<rfloor> - 1) \<le> \<lfloor>x\<rfloor>" using bitlen_bounds[OF m] by simp
  then have "real_of_int (2 ^ nat (bitlen \<lfloor>x\<rfloor> - 1)) \<le> real_of_int \<lfloor>x\<rfloor>"
    by (rule of_int_le_iff[THEN iffD2])
  also have "\<dots> \<le> x" by simp
  finally have "(2::real) ^ nat (bitlen \<lfloor>x\<rfloor> - 1) \<le> x" by simp
  then show ?thesis using True b by (simp add: power_int_def)
next
  case False
  with assms have "1 < 1 / x" by simp
  then have m: "0 < \<lfloor>1 / x\<rfloor>" by simp
  have "\<lfloor>1 / x\<rfloor> < (2::int) ^ nat (bitlen \<lfloor>1 / x\<rfloor>)" using bitlen_bounds[OF m] by simp
  then have "\<lfloor>1 / x\<rfloor> + 1 \<le> (2::int) ^ nat (bitlen \<lfloor>1 / x\<rfloor>)" by simp
  then have "real_of_int (\<lfloor>1 / x\<rfloor> + 1) \<le> real_of_int (2 ^ nat (bitlen \<lfloor>1 / x\<rfloor>))"
    by (rule of_int_le_iff[THEN iffD2])
  then have "real_of_int \<lfloor>1 / x\<rfloor> + 1 \<le> 2 ^ nat (bitlen \<lfloor>1 / x\<rfloor>)" by simp
  moreover have "1 / x < real_of_int \<lfloor>1 / x\<rfloor> + 1" by linarith
  ultimately have "1 / x \<le> 2 ^ nat (bitlen \<lfloor>1 / x\<rfloor>)" by linarith
  then have "1 \<le> 2 ^ nat (bitlen \<lfloor>1 / x\<rfloor>) * x"
    using assms by (simp add: field_simps)
  then have "1 / 2 ^ nat (bitlen \<lfloor>1 / x\<rfloor>) \<le> x"
    by (simp add: field_simps)
  moreover have "(2::real) powi (- bitlen \<lfloor>1 / x\<rfloor>) = 1 / 2 ^ nat (bitlen \<lfloor>1 / x\<rfloor>)"
    using bitlen_nonneg[of "\<lfloor>1 / x\<rfloor>"] by (simp add: power_int_minus_divide power_int_def power_one_over)
  ultimately show ?thesis using False by simp
qed

lemma exponent_guess_ge:
  fixes x :: real
  assumes "0 < x"
  shows "x \<le> 2 powi ((if 1 \<le> x then bitlen \<lfloor>x\<rfloor> - 1 else - bitlen \<lfloor>1 / x\<rfloor>) + 1)"
proof (cases "1 \<le> x")
  case True
  then have m: "0 < \<lfloor>x\<rfloor>" by simp
  have "\<lfloor>x\<rfloor> < (2::int) ^ nat (bitlen \<lfloor>x\<rfloor>)" using bitlen_bounds[OF m] by simp
  then have "\<lfloor>x\<rfloor> + 1 \<le> (2::int) ^ nat (bitlen \<lfloor>x\<rfloor>)" by simp
  then have "real_of_int (\<lfloor>x\<rfloor> + 1) \<le> real_of_int (2 ^ nat (bitlen \<lfloor>x\<rfloor>))"
    by (rule of_int_le_iff[THEN iffD2])
  then have "real_of_int \<lfloor>x\<rfloor> + 1 \<le> 2 ^ nat (bitlen \<lfloor>x\<rfloor>)" by simp
  moreover have "x < real_of_int \<lfloor>x\<rfloor> + 1" by linarith
  ultimately have "x \<le> 2 ^ nat (bitlen \<lfloor>x\<rfloor>)" by linarith
  then show ?thesis using True bitlen_nonneg[of "\<lfloor>x\<rfloor>"] by (simp add: power_int_def)
next
  case False
  with assms have "1 < 1 / x" by simp
  then have m: "0 < \<lfloor>1 / x\<rfloor>" by simp
  then have b: "1 \<le> bitlen \<lfloor>1 / x\<rfloor>" by (auto simp: bitlen_alt_def)
  have "(2::int) ^ nat (bitlen \<lfloor>1 / x\<rfloor> - 1) \<le> \<lfloor>1 / x\<rfloor>" using bitlen_bounds[OF m] by simp
  then have "real_of_int (2 ^ nat (bitlen \<lfloor>1 / x\<rfloor> - 1)) \<le> real_of_int \<lfloor>1 / x\<rfloor>"
    by (rule of_int_le_iff[THEN iffD2])
  also have "\<dots> \<le> 1 / x" by simp
  finally have "(2::real) ^ nat (bitlen \<lfloor>1 / x\<rfloor> - 1) \<le> 1 / x" by simp
  then have "x * 2 ^ nat (bitlen \<lfloor>1 / x\<rfloor> - 1) \<le> 1"
    using assms by (simp add: field_simps)
  then have "x \<le> 1 / 2 ^ nat (bitlen \<lfloor>1 / x\<rfloor> - 1)"
    by (simp add: field_simps)
  moreover have "(2::real) powi (- bitlen \<lfloor>1 / x\<rfloor> + 1) = 1 / 2 ^ nat (bitlen \<lfloor>1 / x\<rfloor> - 1)"
  proof -
    have "(2::real) powi (- bitlen \<lfloor>1 / x\<rfloor> + 1) = 2 powi (- (bitlen \<lfloor>1 / x\<rfloor> - 1))" by simp
    also have "\<dots> = 1 / 2 powi (bitlen \<lfloor>1 / x\<rfloor> - 1)" by (rule power_int_minus_divide)
    also have "\<dots> = 1 / 2 ^ nat (bitlen \<lfloor>1 / x\<rfloor> - 1)" using b by (simp add: power_int_def)
    finally show ?thesis .
  qed
  ultimately show ?thesis using False by simp
qed

text \<open>\<open>exponentOf x\<close> is the exponent of the binade of \<open>x\<close>.\<close>

lemma exponentOf_le:
  assumes "0 < x"
  shows "2 powi exponentOf x \<le> x"
  using exponent_guess_le[OF assms] by (auto simp: exponentOf_def Let_def)

lemma exponentOf_gt:
  assumes "0 < x"
  shows "x < 2 powi (exponentOf x + 1)"
proof -
  define g where "g = (if 1 \<le> x then bitlen \<lfloor>x\<rfloor> - 1 else - bitlen \<lfloor>1 / x\<rfloor>)"
  have e: "exponentOf x = (if x < 2 powi (g + 1) then g else g + 1)"
    by (simp add: exponentOf_def Let_def g_def)
  have u: "x \<le> 2 powi (g + 1)" unfolding g_def by (rule exponent_guess_ge[OF assms])
  have "(2::real) powi (g + 1) < 2 powi (g + 1 + 1)"
    by (rule power_int_strict_increasing) simp_all
  then show ?thesis using u by (auto simp: e)
qed

text \<open>
  The number rounded to an integer is a significand of 53 bits, so that \<open>toDouble\<close>
  rounds to 53 significant bits.
\<close>

lemma significand_range:
  assumes "0 < x"
  shows "2 ^ 52 \<le> x / 2 powi (exponentOf x - 52)" and "x / 2 powi (exponentOf x - 52) < 2 ^ 53"
proof -
  have p: "(2::real) powi (exponentOf x - 52) = 2 powi exponentOf x / 2 ^ 52"
    by (simp add: power_int_diff)
  have q: "(2::real) powi (exponentOf x + 1) = 2 powi exponentOf x * 2"
    by (simp add: power_int_add)
  have pos: "0 < (2::real) powi exponentOf x" by simp
  show "2 ^ 52 \<le> x / 2 powi (exponentOf x - 52)"
    unfolding p using exponentOf_le[OF assms] pos by (simp add: field_simps)
  show "x / 2 powi (exponentOf x - 52) < 2 ^ 53"
    unfolding p using exponentOf_gt[OF assms] pos unfolding q by (simp add: field_simps)
qed

lemma toDouble_pos:
  assumes "0 < x"
  shows "toDouble x = real_of_int (roundTiesToEven (x / 2 powi (exponentOf x - 52))) * 2 powi (exponentOf x - 52)"
  using assms by (simp add: toDouble_def Let_def)

lemma toDouble_error_pos:
  assumes "0 < x"
  shows "\<bar>toDouble x - x\<bar> \<le> x / 2 ^ 53"
proof -
  define p :: real where "p = 2 powi (exponentOf x - 52)"
  have p0: "0 < p" by (simp add: p_def)
  have "p = 2 powi exponentOf x / 2 ^ 52" by (simp add: p_def power_int_diff)
  also have "\<dots> \<le> x / 2 ^ 52" using exponentOf_le[OF assms] by (simp add: divide_right_mono)
  finally have px: "p \<le> x / 2 ^ 52" .
  have "toDouble x - x = (real_of_int (roundTiesToEven (x / p)) - x / p) * p"
    using p0 by (simp add: toDouble_pos[OF assms] p_def[symmetric] field_simps)
  then have "\<bar>toDouble x - x\<bar> = \<bar>real_of_int (roundTiesToEven (x / p)) - x / p\<bar> * p"
    using p0 by (simp add: abs_mult)
  also have "\<dots> \<le> 1 / 2 * p"
    by (rule mult_right_mono[OF roundTiesToEven_error]) (use p0 in simp)
  also have "\<dots> \<le> 1 / 2 * (x / 2 ^ 52)" using px by simp
  finally show ?thesis by simp
qed

lemma toDouble_minus: "toDouble (- x) = - toDouble x"
  by (simp add: toDouble_def Let_def sgn_if)

lemma toDouble_error: "\<bar>toDouble x - x\<bar> \<le> \<bar>x\<bar> / 2 ^ 53"
proof -
  consider "x = 0" | "0 < x" | "x < 0" by linarith
  then show ?thesis
  proof cases
    case 1
    then show ?thesis by (simp add: toDouble_def)
  next
    case 2
    then show ?thesis using toDouble_error_pos[of x] by simp
  next
    case 3
    then have "\<bar>toDouble (- x) - (- x)\<bar> \<le> (- x) / 2 ^ 53" using toDouble_error_pos[of "- x"] by simp
    then show ?thesis using 3 by (simp add: toDouble_minus)
  qed
qed

lemma toDouble_nonneg: "0 \<le> x \<Longrightarrow> 0 \<le> toDouble x"
  by (cases "x = 0") (simp_all add: toDouble_def Let_def roundTiesToEven_nonneg)

lemma roundoff_ge_1: "1 \<le> roundoff"
  by (simp add: roundoff_def)

lemma toDouble_le:
  assumes "0 \<le> x" "x \<le> b"
  shows "toDouble x \<le> b * roundoff"
proof -
  have "\<bar>toDouble x - x\<bar> \<le> x / 2 ^ 53" using toDouble_error[of x] assms(1) by simp
  then have "toDouble x \<le> x + x / 2 ^ 53" by linarith
  also have "\<dots> = x * roundoff" by (simp add: roundoff_def field_simps)
  also have "\<dots> \<le> b * roundoff" using assms(2) roundoff_ge_1 by (simp add: mult_right_mono)
  finally show ?thesis .
qed


section \<open>Evaluating the rounding on literals\<close>

lemma bitlen_numeral_simps:
  "bitlen 1 = 1"
  "bitlen (numeral num.One) = 1"
  "bitlen (numeral (num.Bit0 n)) = bitlen (numeral n) + 1"
  "bitlen (numeral (num.Bit1 n)) = bitlen (numeral n) + 1"
proof -
  show "bitlen 1 = 1" by (subst compute_bitlen) simp
  show "bitlen (numeral num.One) = 1" by (subst compute_bitlen) simp
  have "numeral (num.Bit0 n) div (2::int) = numeral n" by simp
  then show "bitlen (numeral (num.Bit0 n)) = bitlen (numeral n) + 1"
    by (subst compute_bitlen) simp
  have "numeral (num.Bit1 n) div (2::int) = numeral n" by simp
  then show "bitlen (numeral (num.Bit1 n)) = bitlen (numeral n) + 1"
    by (subst compute_bitlen) simp
qed

lemma toDouble_0: "toDouble 0 = 0"
  by (simp add: toDouble_def)

lemma toDouble_1: "toDouble 1 = 1"
  by (simp add: toDouble_def exponentOf_def roundTiesToEven_def Let_def bitlen_numeral_simps)

lemmas toDouble_literal =
  toDouble_0 toDouble_1
  toDouble_def [of "numeral a"] toDouble_def [of "numeral a / numeral b"]
  toDouble_def [of "1 / numeral b"]
  for a b

lemmas toDouble_eval =
  toDouble_literal exponentOf_def roundTiesToEven_def Let_def bitlen_numeral_simps
  dadd_def dmul_def ddiv_def

text \<open>Known values: 0.1 + 0.2 is 0.30000000000000004 and not the double 0.3.\<close>

lemma double_arithmetic_examples:
  "toDouble 0.1 = 3602879701896397 / 36028797018963968"
  "dadd (toDouble 0.1) (toDouble 0.2) = 1351079888211149 / 4503599627370496"
  "toDouble 0.3 = 5404319552844595 / 18014398509481984"
  by (simp_all add: toDouble_eval)

lemma upt_12: "[0..<12] = [0, 1, 2, 3, 4, 5, 6, 7, 8, 9, 10, 11]"
  by code_simp

lemma candidates_list:
  "candidates = [(0, False), (0, True), (1, False), (1, True), (2, False), (2, True),
     (3, False), (3, True), (4, False), (4, True), (5, False), (5, True),
     (6, False), (6, True), (7, False), (7, True), (8, False), (8, True),
     (9, False), (9, True), (10, False), (10, True), (11, False), (11, True)]"
  by code_simp

lemmas bestKeyFor_eval =
  bestKeyFor_def bestStep_def scalarProduct_def rotated_def candidates_list upt_12
  keyNameOf_def NOTE_NAMES_def ALBRECHT_SHANAHAN_PROFILES_def TEMPERLEY_PROFILES_def
  KRUMHANSL_KESSLER_PROFILES_def toDouble_eval

section \<open>Properties of the key detector\<close>

lemma foldl_add_sum_list:
  fixes a :: "'a::comm_monoid_add"
  shows "foldl (\<lambda>s x. s + f x) a xs = a + sum_list (map f xs)"
  by (induction xs arbitrary: a) (simp_all add: add.assoc)

lemma length_noteCounts_fold:
  "length (foldl (\<lambda>cs ev. cs[g ev := h cs ev]) cs0 buf) = length cs0"
  by (induction buf arbitrary: cs0) simp_all

lemma sum_list_normalize:
  "sum_list (map (\<lambda>c. real c / t * r) cs) = real (sum_list cs) / t * r"
  by (induction cs) (simp_all add: add_divide_distrib distrib_right)

lemma length_noteCountsOf: "length (noteCountsOf buf) = 12"
  by (simp add: noteCountsOf_def length_noteCounts_fold)

lemma roundoff_power:
  assumes "n \<le> 20"
  shows "roundoff ^ n \<le> 1001 / 1000"
proof -
  have "roundoff ^ n \<le> roundoff ^ 20"
    by (rule power_increasing[OF assms roundoff_ge_1])
  also have "\<dots> \<le> (100001 / 100000) ^ 20"
    by (rule power_mono) (simp_all add: roundoff_def)
  also have "\<dots> \<le> (1001 / 1000 :: real)" by (simp add: power_divide)
  finally show ?thesis .
qed

lemma normalizedOf_props:
  assumes "normalizedOf buf = Some nz"
  shows "length nz = 12" and "\<forall>x\<in>set nz. 0 \<le> x" and "sum_list nz \<le> roundoff"
proof -
  let ?cs = "noteCountsOf buf"
  let ?t = "real (sum_list ?cs)"
  have t: "foldl (\<lambda>a b. a + b) 0 ?cs = sum_list ?cs"
    using foldl_add_sum_list[of "\<lambda>x. x" 0 ?cs] by simp
  from assms have tot: "sum_list ?cs \<noteq> 0" and nz: "nz = map (\<lambda>c. ddiv (real c) ?t) ?cs"
    by (auto simp: normalizedOf_def Let_def t split: if_splits)
  show "length nz = 12" by (simp add: nz length_noteCountsOf)
  show "\<forall>x\<in>set nz. 0 \<le> x" by (auto simp: nz ddiv_def intro!: toDouble_nonneg)
  have "sum_list nz \<le> sum_list (map (\<lambda>c. real c / ?t * roundoff) ?cs)"
    unfolding nz
  proof (rule sum_list_mono)
    fix c
    show "ddiv (real c) ?t \<le> real c / ?t * roundoff"
      unfolding ddiv_def by (rule toDouble_le) simp_all
  qed
  also have "\<dots> = ?t / ?t * roundoff" by (rule sum_list_normalize)
  also have "\<dots> = roundoff"
  proof -
    have "?t \<noteq> 0" using tot by (simp only: of_nat_eq_0_iff not_False_eq_True)
    then have "?t / ?t = 1" by (rule divide_self)
    then show ?thesis by (simp only: mult_1)
  qed
  finally show "sum_list nz \<le> roundoff" .
qed

lemma foldl_dadd_bounds:
  assumes "0 \<le> a" and "\<forall>i\<in>set js. 0 \<le> t i \<and> t i \<le> b i"
  shows "0 \<le> foldl (\<lambda>s i. dadd s (t i)) a js
     \<and> foldl (\<lambda>s i. dadd s (t i)) a js \<le> (a + sum_list (map b js)) * roundoff ^ length js"
  using assms
proof (induction js arbitrary: a)
  case Nil
  then show ?case by simp
next
  case (Cons i js)
  let ?a' = "dadd a (t i)"
  let ?S = "sum_list (map b js)"
  have ti: "0 \<le> t i" "t i \<le> b i" using Cons.prems(2) by simp_all
  have rest: "\<forall>i\<in>set js. 0 \<le> t i \<and> t i \<le> b i" using Cons.prems(2) by simp
  have a0: "0 \<le> ?a'" unfolding dadd_def by (rule toDouble_nonneg) (use Cons.prems(1) ti in simp)
  have a1: "?a' \<le> (a + b i) * roundoff"
    unfolding dadd_def by (rule toDouble_le) (use Cons.prems(1) ti in simp_all)
  have S0: "0 \<le> ?S" by (rule sum_list_nonneg) (use rest in force)
  have "?S \<le> ?S * roundoff" using S0 roundoff_ge_1 by (simp add: mult_le_cancel_left1)
  then have step: "?a' + ?S \<le> (a + b i + ?S) * roundoff" using a1 by (simp add: distrib_right)
  have r0: "0 \<le> roundoff ^ length js" using roundoff_ge_1 by simp
  from Cons.IH[OF a0 rest]
  have ih: "0 \<le> foldl (\<lambda>s i. dadd s (t i)) ?a' js"
    "foldl (\<lambda>s i. dadd s (t i)) ?a' js \<le> (?a' + ?S) * roundoff ^ length js"
    by simp_all
  have "(?a' + ?S) * roundoff ^ length js \<le> (a + b i + ?S) * roundoff * roundoff ^ length js"
    by (rule mult_right_mono[OF step r0])
  then show ?case using ih by (simp add: mult.assoc add.assoc)
qed

lemma scalarProduct_bounds:
  assumes l: "length nz = 12" and nn: "\<forall>x\<in>set nz. 0 \<le> x" and one: "sum_list nz \<le> roundoff"
    and lr: "length rot = 12" and b: "\<forall>x\<in>set rot. 0 \<le> x \<and> x \<le> M"
  shows "0 \<le> scalarProduct nz rot" and "scalarProduct nz rot \<le> M * (1001 / 1000)"
proof -
  have el: "0 \<le> nz ! i" "0 \<le> rot ! i" "rot ! i \<le> M" if "i < 12" for i
    using that l lr nn b by (auto simp: all_set_conv_all_nth)
  have M0: "0 \<le> M" using el(2,3)[of 0] by simp
  have terms: "\<forall>i\<in>set [0..<12]. 0 \<le> dmul (nz ! i) (rot ! i)
      \<and> dmul (nz ! i) (rot ! i) \<le> nz ! i * M * roundoff"
  proof
    fix i assume "i \<in> set [0..<12]"
    then have i: "i < 12" by simp
    have "0 \<le> nz ! i * rot ! i" "nz ! i * rot ! i \<le> nz ! i * M"
      using el[OF i] by (simp_all add: mult_left_mono)
    then show "0 \<le> dmul (nz ! i) (rot ! i) \<and> dmul (nz ! i) (rot ! i) \<le> nz ! i * M * roundoff"
      unfolding dmul_def by (simp add: toDouble_nonneg toDouble_le)
  qed
  note fb = foldl_dadd_bounds[where a=0 and js="[0..<12]"
      and t="\<lambda>i. dmul (nz ! i) (rot ! i)" and b="\<lambda>i. nz ! i * M * roundoff", OF _ terms]
  show "0 \<le> scalarProduct nz rot" unfolding scalarProduct_def using fb by simp
  have "sum_list (map (\<lambda>i. nz ! i * M * roundoff) [0..<12])
      = sum_list (map (\<lambda>x. x * (M * roundoff)) (map ((!) nz) [0..<length nz]))"
    by (simp add: l comp_def mult.assoc)
  also have "\<dots> = sum_list (map (\<lambda>x. x * (M * roundoff)) nz)" by (simp only: map_nth)
  also have "\<dots> = sum_list nz * (M * roundoff)" by (simp add: sum_list_mult_const)
  finally have s: "sum_list (map (\<lambda>i. nz ! i * M * roundoff) [0..<12]) = sum_list nz * (M * roundoff)" .
  have Mr: "0 \<le> M * roundoff" using M0 roundoff_ge_1 by simp
  have "scalarProduct nz rot \<le> (sum_list nz * (M * roundoff)) * roundoff ^ 12"
    unfolding scalarProduct_def using fb s by simp
  also have "\<dots> \<le> (roundoff * (M * roundoff)) * roundoff ^ 12"
    by (intro mult_right_mono one Mr) (use roundoff_ge_1 in simp)
  also have "\<dots> = M * roundoff ^ 14" by (simp add: power_numeral_reduce ac_simps)
  also have "\<dots> \<le> M * (1001 / 1000)"
    by (rule mult_left_mono[OF roundoff_power M0]) simp
  finally show "scalarProduct nz rot \<le> M * (1001 / 1000)" .
qed

lemma rotated_props:
  assumes "length p = 12"
  shows "length (rotated p r) = 12" and "set (rotated p r) \<subseteq> set p"
proof -
  show "length (rotated p r) = 12" using assms by (simp add: rotated_def) 
  show "set (rotated p r) \<subseteq> set p"
    unfolding rotated_def using set_drop_subset[of "12 - r" p] set_take_subset[of "12 - r" p]
    by auto
qed

lemma profiles_within:
  "profile_within ALBRECHT_SHANAHAN_PROFILES (2381 / 10000)"
  "profile_within TEMPERLEY_PROFILES (1791 / 10000)"
  "profile_within KRUMHANSL_KESSLER_PROFILES (1521 / 10000)"
  by (simp_all add: profile_within_def ALBRECHT_SHANAHAN_PROFILES_def TEMPERLEY_PROFILES_def
      KRUMHANSL_KESSLER_PROFILES_def toDouble_eval)

lemma bestStep_found:
  assumes nz: "length nz = 12" "\<forall>x\<in>set nz. 0 \<le> x" "sum_list nz \<le> roundoff"
    and P: "profile_within P M"
    and best: "best = (None, None) \<or> found_within (M * (1001 / 1000)) best"
  shows "found_within (M * (1001 / 1000)) (bestStep nz P best cand)"
proof -
  let ?pd = "if snd cand then minor P else major P"
  let ?rot = "rotated ?pd (fst cand)"
  have lp: "length ?pd = 12" and bp: "\<forall>x\<in>set ?pd. 0 \<le> x \<and> x \<le> M"
    using P by (auto simp: profile_within_def)
  have lr: "length ?rot = 12" by (rule rotated_props(1)[OF lp])
  have br: "\<forall>x\<in>set ?rot. 0 \<le> x \<and> x \<le> M" using rotated_props(2)[OF lp] bp by blast
  note sp = scalarProduct_bounds[OF nz lr br]
  show ?thesis
  proof (cases "exceeds (scalarProduct nz ?rot) (snd best)")
    case True
    then show ?thesis using sp by (simp add: bestStep_def Let_def found_within_def)
  next
    case False
    then have "snd best \<noteq> None" by (cases "snd best") auto
    then have "found_within (M * (1001 / 1000)) best" using best by auto
    then show ?thesis using False by (simp add: bestStep_def Let_def)
  qed
qed

lemma foldl_found:
  assumes nz: "length nz = 12" "\<forall>x\<in>set nz. 0 \<le> x" "sum_list nz \<le> roundoff"
    and P: "profile_within P M" and f: "found_within (M * (1001 / 1000)) best"
  shows "found_within (M * (1001 / 1000)) (foldl (bestStep nz P) best cs)"
  using f
proof (induction cs arbitrary: best)
  case Nil
  then show ?case by simp
next
  case (Cons c cs)
  have "found_within (M * (1001 / 1000)) (bestStep nz P best c)"
    by (rule bestStep_found[OF nz P]) (use Cons.prems in simp)
  then show ?case using Cons.IH by simp
qed

lemma candidates_Cons: "candidates = (0, False) # tl candidates"
proof -
  have "[0..<12] = 0 # [Suc 0..<12]" by (rule upt_conv_Cons) simp
  then show ?thesis unfolding candidates_def by simp
qed

lemma bestKeyFor_found:
  assumes nz: "length nz = 12" "\<forall>x\<in>set nz. 0 \<le> x" "sum_list nz \<le> roundoff"
    and P: "profile_within P M"
  shows "found_within (M * (1001 / 1000)) (bestKeyFor nz P)"
proof -
  have first: "found_within (M * (1001 / 1000)) (bestStep nz P (None, None) (0, False))"
    by (rule bestStep_found[OF nz P]) simp
  have "bestKeyFor nz P = foldl (bestStep nz P) (bestStep nz P (None, None) (0, False)) (tl candidates)"
    unfolding bestKeyFor_def by (subst candidates_Cons) simp
  then show ?thesis using foldl_found[OF nz P first] by simp
qed

lemma in_set_update:
  "(k', v') \<in> set (AList.update k v al) \<Longrightarrow> (k', v') = (k, v) \<or> (k', v') \<in> set al"
  by (induction al) (auto split: if_splits)

lemma addVote_within:
  assumes nz: "length nz = 12" "\<forall>x\<in>set nz. 0 \<le> x" "sum_list nz \<le> roundoff"
    and P: "profile_within P M" and w: "0 \<le> weight" "weight \<le> W"
    and B: "0 \<le> B" and V: "votes_within B n keyVotes"
  shows "votes_within ((B + W * (M * (1001 / 1000)) * roundoff) * roundoff) (Suc n)
           (addVote nz keyVotes (name, P, weight))"
proof -
  let ?X = "W * (M * (1001 / 1000)) * roundoff"
  from bestKeyFor_found[OF nz P] obtain bk b where
    bk: "bestKeyFor nz P = (Some bk, Some b)" and b: "0 \<le> b" "b \<le> M * (1001 / 1000)"
    by (auto simp: found_within_def)
  define old where "old = (case map_of keyVotes bk of
       None \<Rightarrow> \<lparr>weightedScore = Some 0, voteCount = 0, profiles = []\<rparr> | Some v \<Rightarrow> v)"
  have oldp: "\<exists>w0. weightedScore old = Some w0 \<and> 0 \<le> w0 \<and> w0 \<le> B \<and> voteCount old \<le> n"
  proof (cases "map_of keyVotes bk")
    case None
    then show ?thesis using B by (simp add: old_def)
  next
    case (Some v)
    then have "(bk, v) \<in> set keyVotes" by (rule map_of_SomeD)
    then show ?thesis using V Some by (auto simp: votes_within_def old_def)
  qed
  then obtain w0 where w0: "weightedScore old = Some w0" "0 \<le> w0" "w0 \<le> B" "voteCount old \<le> n"
    by blast
  let ?new = "\<lparr>weightedScore = Some (dadd w0 (dmul weight b)), voteCount = voteCount old + 1,
               profiles = profiles old @ [name]\<rparr>"
  have av: "addVote nz keyVotes (name, P, weight) = AList.update bk ?new keyVotes"
    by (simp add: addVote_def Let_def bk propertyName_def old_def[symmetric] w0(1))
  have wb0: "0 \<le> weight * b" using w b by simp
  have wb1: "weight * b \<le> W * (M * (1001 / 1000))"
    by (rule mult_mono) (use w b in simp_all)
  have d: "0 \<le> dmul weight b" "dmul weight b \<le> ?X"
    unfolding dmul_def by (rule toDouble_nonneg[OF wb0], rule toDouble_le[OF wb0 wb1])
  have s0: "0 \<le> w0 + dmul weight b" and s1: "w0 + dmul weight b \<le> B + ?X"
    using w0 d by simp_all
  have s: "0 \<le> dadd w0 (dmul weight b)" "dadd w0 (dmul weight b) \<le> (B + ?X) * roundoff"
    unfolding dadd_def by (rule toDouble_nonneg[OF s0], rule toDouble_le[OF s0 s1])
  have X0: "0 \<le> ?X" using d by linarith
  have BX: "0 \<le> B + ?X" using B X0 by linarith
  have "B \<le> B + ?X" using X0 by simp
  also have "\<dots> \<le> (B + ?X) * roundoff"
    using mult_left_mono[OF roundoff_ge_1 BX] by (simp only: mult_1_right)
  finally have keep: "B \<le> (B + ?X) * roundoff" .
  show ?thesis
    unfolding av votes_within_def
  proof (intro ballI, clarify)
    fix k v assume "(k, v) \<in> set (AList.update bk ?new keyVotes)"
    then consider "(k, v) = (bk, ?new)" | "(k, v) \<in> set keyVotes"
      using in_set_update by fast
    then show "\<exists>w. weightedScore v = Some w \<and> 0 \<le> w \<and> w \<le> (B + ?X) * roundoff
                 \<and> 1 \<le> voteCount v \<and> voteCount v \<le> Suc n"
    proof cases
      case 1
      then show ?thesis using w0 s by auto
    next
      case 2
      then obtain w' where "weightedScore v = Some w'" "0 \<le> w'" "w' \<le> B"
        "1 \<le> voteCount v" "voteCount v \<le> n"
        using V by (auto simp: votes_within_def)
      then show ?thesis using keep by auto
    qed
  qed
qed

lemma votes_within_mono:
  assumes "votes_within B n kv" "B \<le> B'"
  shows "votes_within B' n kv"
  using assms unfolding votes_within_def by fastforce

lemma weights_within:
  "0 \<le> toDouble 0.45" "toDouble 0.45 \<le> 4501 / 10000"
  "0 \<le> toDouble 0.35" "toDouble 0.35 \<le> 3501 / 10000"
  "0 \<le> toDouble 0.20" "toDouble 0.20 \<le> 2001 / 10000"
  by (simp_all add: toDouble_eval)

lemma tallyVotes_within:
  assumes nz: "length nz = 12" "\<forall>x\<in>set nz. 0 \<le> x" "sum_list nz \<le> roundoff"
  shows "votes_within (201 / 1000) 3 (tallyVotes nz)"
proof -
  define B1 where "B1 = (0 + 4501 / 10000 * (2381 / 10000 * (1001 / 1000)) * roundoff) * roundoff"
  define B2 where "B2 = (B1 + 3501 / 10000 * (1791 / 10000 * (1001 / 1000)) * roundoff) * roundoff"
  define B3 where "B3 = (B2 + 2001 / 10000 * (1521 / 10000 * (1001 / 1000)) * roundoff) * roundoff"
  have B: "0 \<le> B1" "0 \<le> B2" by (simp_all add: B1_def B2_def roundoff_def)
  have v0: "votes_within 0 0 []" by (simp add: votes_within_def)
  have v1: "votes_within B1 (Suc 0)
      (addVote nz [] (''albrecht_shanahan'', ALBRECHT_SHANAHAN_PROFILES, toDouble 0.45))"
    unfolding B1_def by (rule addVote_within[OF nz profiles_within(1) weights_within(1,2) _ v0]) simp
  have v2: "votes_within B2 (Suc (Suc 0))
      (addVote nz (addVote nz [] (''albrecht_shanahan'', ALBRECHT_SHANAHAN_PROFILES, toDouble 0.45))
         (''temperley'', TEMPERLEY_PROFILES, toDouble 0.35))"
    unfolding B2_def by (rule addVote_within[OF nz profiles_within(2) weights_within(3,4) B(1) v1])
  have v3: "votes_within B3 (Suc (Suc (Suc 0)))
      (addVote nz (addVote nz (addVote nz [] (''albrecht_shanahan'', ALBRECHT_SHANAHAN_PROFILES, toDouble 0.45))
         (''temperley'', TEMPERLEY_PROFILES, toDouble 0.35))
         (''krumhansl_kessler'', KRUMHANSL_KESSLER_PROFILES, toDouble 0.20))"
    unfolding B3_def by (rule addVote_within[OF nz profiles_within(3) weights_within(5,6) B(2) v2])
  have e: "B3 \<le> 201 / 1000" by (simp add: B3_def B2_def B1_def roundoff_def)
  have n: "Suc (Suc (Suc 0)) = 3" by simp
  show ?thesis
    using votes_within_mono[OF v3 e] unfolding n
    by (simp add: tallyVotes_def ENSEMBLE_CONFIG_profiles_def)
qed

lemma finalStep_picked:
  assumes "picked_from kv fin" "e \<in> set kv"
  shows "picked_from kv (finalStep fin e)"
  using assms by (cases e) (auto simp: picked_from_def finalStep_def)

lemma foldl_picked:
  assumes "picked_from kv fin" "set es \<subseteq> set kv"
  shows "picked_from kv (foldl finalStep fin es)"
  using assms
proof (induction es arbitrary: fin)
  case Nil
  then show ?case by simp
next
  case (Cons e es)
  then have "picked_from kv (finalStep fin e)" by (simp add: finalStep_picked)
  then show ?case using Cons by simp
qed

lemma finalVote_picked: "picked_from kv (finalVote kv)"
  unfolding finalVote_def by (rule foldl_picked) (simp_all add: picked_from_def)

lemma finalVote_within:
  assumes nz: "length nz = 12" "\<forall>x\<in>set nz. 0 \<le> x" "sum_list nz \<le> roundoff"
    and fv: "finalVote (tallyVotes nz) = (fk, Some fs, agr)"
  shows "0 \<le> fs" "fs \<le> 201 / 1000" "1 \<le> agr" "agr \<le> 3" "fk \<noteq> None"
proof -
  have "picked_from (tallyVotes nz) (fk, Some fs, agr)"
    using finalVote_picked[of "tallyVotes nz"] fv by simp
  then obtain k v where kv: "(k, v) \<in> set (tallyVotes nz)" "fk = Some k"
    "weightedScore v = Some fs" "voteCount v = agr"
    by (auto simp: picked_from_def)
  from tallyVotes_within[OF nz] kv(1) obtain w where
    "weightedScore v = Some w" "0 \<le> w" "w \<le> 201 / 1000" "1 \<le> voteCount v" "voteCount v \<le> 3"
    by (auto simp: votes_within_def)
  then show "0 \<le> fs" "fs \<le> 201 / 1000" "1 \<le> agr" "agr \<le> 3" "fk \<noteq> None"
    using kv by simp_all
qed

lemma confidence_bounds:
  assumes "0 \<le> fs" "fs \<le> 201 / 1000"
  shows "0 \<le> js_round (dmul (dmul fs 400) (agreementBonus agr))"
    and "js_round (dmul (dmul fs 400) (agreementBonus agr)) \<le> 100"
proof -
  have bon: "0 \<le> agreementBonus agr" "agreementBonus agr \<le> 1201 / 1000"
    by (simp_all add: agreementBonus_def toDouble_eval)
  have f0: "0 \<le> fs * 400" and f1: "fs * 400 \<le> 201 / 1000 * 400" using assms by simp_all
  have d1: "0 \<le> dmul fs 400" "dmul fs 400 \<le> 201 / 1000 * 400 * roundoff"
    unfolding dmul_def by (rule toDouble_nonneg[OF f0], rule toDouble_le[OF f0 f1])
  have p0: "0 \<le> dmul fs 400 * agreementBonus agr" using d1 bon by simp
  have p1: "dmul fs 400 * agreementBonus agr \<le> 201 / 1000 * 400 * roundoff * (1201 / 1000)"
    by (rule mult_mono) (use d1 bon roundoff_ge_1 in simp_all)
  have d2: "0 \<le> dmul (dmul fs 400) (agreementBonus agr)"
    "dmul (dmul fs 400) (agreementBonus agr) \<le> 201 / 1000 * 400 * roundoff * (1201 / 1000) * roundoff"
    unfolding dmul_def[of "dmul fs 400"] by (rule toDouble_nonneg[OF p0], rule toDouble_le[OF p0 p1])
  have "(201 / 1000 * 400 * roundoff * (1201 / 1000) * roundoff :: real) \<le> 100"
    by (simp add: roundoff_def)
  then have hi: "dmul (dmul fs 400) (agreementBonus agr) \<le> 100" using d2(2) by linarith
  show "0 \<le> js_round (dmul (dmul fs 400) (agreementBonus agr))"
    unfolding js_round_def using d2(1) by linarith
  show "js_round (dmul (dmul fs 400) (agreementBonus agr)) \<le> 100"
    unfolding js_round_def using hi by linarith
qed

lemma detect_cases:
  "detectKeyEnsemble buf sens ck =
     (case normalizedOf buf of
        None \<Rightarrow> (None, ck)
      | Some nz \<Rightarrow>
          (case fst (snd (finalVote (tallyVotes nz))) of
             None \<Rightarrow> (None, ck)
           | Some fs \<Rightarrow>
               if fs \<ge> thresholdFor sens \<and> fst (finalVote (tallyVotes nz)) \<noteq> ck
               then (Some \<lparr>key = propertyName (fst (finalVote (tallyVotes nz))),
                           confidence = js_round (dmul (dmul fs 400)
                              (agreementBonus (snd (snd (finalVote (tallyVotes nz)))))),
                           agreement = snd (snd (finalVote (tallyVotes nz))),
                           agreementText = agreementTextOf (snd (snd (finalVote (tallyVotes nz)))),
                           profileResults = profileResultsOf nz,
                           methodName = ''ensemble''\<rparr>,
                     fst (finalVote (tallyVotes nz)))
               else (None, ck)))"
  by (simp add: detectKeyEnsemble_def Let_def case_prod_beta split: option.splits)

lemma detect_twice:
  "fst (detectKeyEnsemble buf sens (snd (detectKeyEnsemble buf sens ck))) = None"
  "snd (detectKeyEnsemble buf sens (snd (detectKeyEnsemble buf sens ck)))
     = snd (detectKeyEnsemble buf sens ck)"
proof -
  have "fst (detectKeyEnsemble buf sens (snd (detectKeyEnsemble buf sens ck))) = None
      \<and> snd (detectKeyEnsemble buf sens (snd (detectKeyEnsemble buf sens ck)))
           = snd (detectKeyEnsemble buf sens ck)"
  proof (cases "normalizedOf buf")
    case None
    then show ?thesis by (simp add: detect_cases)
  next
    case nz: (Some nz)
    show ?thesis
    proof (cases "fst (snd (finalVote (tallyVotes nz)))")
      case None
      then show ?thesis using nz by (simp add: detect_cases)
    next
      case fs: (Some fs)
      show ?thesis
      proof (cases "fs \<ge> thresholdFor sens \<and> fst (finalVote (tallyVotes nz)) \<noteq> ck")
        case True
        then have "detectKeyEnsemble buf sens ck
            = (fst (detectKeyEnsemble buf sens ck), fst (finalVote (tallyVotes nz)))"
          using nz fs by (simp add: detect_cases)
        then have k: "snd (detectKeyEnsemble buf sens ck) = fst (finalVote (tallyVotes nz))"
          by (metis snd_conv)
        show ?thesis unfolding k using nz fs by (simp add: detect_cases)
      next
        case False
        then have k: "detectKeyEnsemble buf sens ck = (None, ck)"
          using nz fs by (auto simp: detect_cases)
        show ?thesis unfolding k by (simp add: k)
      qed
    qed
  qed
  then show "fst (detectKeyEnsemble buf sens (snd (detectKeyEnsemble buf sens ck))) = None"
    and "snd (detectKeyEnsemble buf sens (snd (detectKeyEnsemble buf sens ck)))
     = snd (detectKeyEnsemble buf sens ck)"
    by simp_all
qed

lemma detect_iterated:
  "((\<lambda>k. snd (detectKeyEnsemble buf sens k)) ^^ Suc n) ck = snd (detectKeyEnsemble buf sens ck)"
proof (induction n)
  case 0
  then show ?case by simp
next
  case (Suc n)
  have "((\<lambda>k. snd (detectKeyEnsemble buf sens k)) ^^ Suc (Suc n)) ck
      = snd (detectKeyEnsemble buf sens (((\<lambda>k. snd (detectKeyEnsemble buf sens k)) ^^ Suc n) ck))"
    by simp
  also have "\<dots> = snd (detectKeyEnsemble buf sens (snd (detectKeyEnsemble buf sens ck)))"
    by (simp only: Suc.IH)
  also have "\<dots> = snd (detectKeyEnsemble buf sens ck)" by (rule detect_twice(2))
  finally show ?case .
qed

lemma detect_none:
  assumes "normalizedOf buf = Some nz" "finalVote (tallyVotes nz) = (fk, Some fs, agr)"
    and "fs < thresholdFor sens \<or> fk = ck"
  shows "detectKeyEnsemble buf sens ck = (None, ck)"
  using assms by (auto simp: detect_cases)

lemma thresholds:
  "thresholdFor ''low'' = toDouble 0.05" "thresholdFor ''medium'' = toDouble 0.04"
  "thresholdFor ''high'' = toDouble 0.03"
  by (simp_all add: thresholdFor_def)

text \<open>
  Claim C3. The thresholds for low, medium and high sensitivity are the doubles 0.05, 0.04
  and 0.03. Whenever the winning weighted score, as the detector computes it in double
  arithmetic, is below the threshold, or the winning key is the detector's current key,
  \<open>detectKeyEnsemble\<close> returns no estimate and leaves the current key as it is. Hence a
  second detection on the same buffer returns no estimate and keeps the key of the first,
  and so does every further one: the current key after any number of detections on the
  same buffer is the key after the first.
\<close>

theorem detector_threshold_and_hysteresis:
  "thresholdFor ''low'' = toDouble 0.05 \<and> thresholdFor ''medium'' = toDouble 0.04
   \<and> thresholdFor ''high'' = toDouble 0.03
   \<and> (normalizedOf buf = Some nz \<and> finalVote (tallyVotes nz) = (fk, Some fs, agr)
        \<and> (fs < thresholdFor sens \<or> fk = ck)
       \<longrightarrow> detectKeyEnsemble buf sens ck = (None, ck))
   \<and> fst (detectKeyEnsemble buf sens (snd (detectKeyEnsemble buf sens ck))) = None
   \<and> snd (detectKeyEnsemble buf sens (snd (detectKeyEnsemble buf sens ck)))
        = snd (detectKeyEnsemble buf sens ck)
   \<and> ((\<lambda>k. snd (detectKeyEnsemble buf sens k)) ^^ Suc n) ck = snd (detectKeyEnsemble buf sens ck)"
  using thresholds detect_none[of buf nz fk fs agr sens ck] detect_twice[of buf sens ck]
    detect_iterated[where buf=buf and sens=sens and n=n and ck=ck]
  by (intro conjI impI) (simp_all del: funpow.simps)

text \<open>
  Claim C4, amended. For every estimate the detector returns, the confidence is the
  double product score * 400 * agreementBonus rounded to the nearest integer, where the
  bonus is the double 1.2, 1.0 or 0.8 for 3, 2 or 1 agreeing profiles; no clamp is applied
  and none is needed, as the value lies between 0 and 100, and the agreement count is 1, 2
  or 3.
\<close>

theorem confidence_rounded_within_range:
  assumes "detectKeyEnsemble buf sens ck = (Some est, k')"
  shows "\<exists>nz fk fs. normalizedOf buf = Some nz
      \<and> finalVote (tallyVotes nz) = (fk, Some fs, agreement est)
      \<and> confidence est = js_round (dmul (dmul fs 400) (agreementBonus (agreement est)))
      \<and> agreementBonus (agreement est)
           = (if agreement est = 3 then toDouble 1.2
              else if agreement est = 2 then toDouble 1.0 else toDouble 0.8)
      \<and> 0 \<le> confidence est \<and> confidence est \<le> 100
      \<and> agreement est \<in> {1, 2, 3}"
proof -
  from assms obtain nz where nz: "normalizedOf buf = Some nz"
    by (auto simp: detect_cases split: option.splits)
  obtain fk xs agr where fv: "finalVote (tallyVotes nz) = (fk, xs, agr)"
    by (cases "finalVote (tallyVotes nz)") auto
  from assms nz fv obtain fs where fs: "xs = Some fs"
    by (auto simp: detect_cases split: option.splits)
  from assms nz fv fs have est:
    "confidence est = js_round (dmul (dmul fs 400) (agreementBonus agr))"
    "agreement est = agr"
    by (auto simp: detect_cases split: if_splits)
  note p = normalizedOf_props[OF nz]
  note b = finalVote_within[OF p fv[unfolded fs]]
  have c: "0 \<le> confidence est" "confidence est \<le> 100"
    unfolding est using confidence_bounds[OF b(1,2)] by simp_all
  have a: "agr \<in> {1, 2, 3}" using b(3,4) by auto
  have bon: "agreementBonus agr
      = (if agr = 3 then toDouble 1.2 else if agr = 2 then toDouble 1.0 else toDouble 0.8)"
    by (simp add: agreementBonus_def)
  show ?thesis using nz fv fs est c a bon by auto
qed

lemma detect_some:
  assumes "normalizedOf buf = Some nz" "finalVote (tallyVotes nz) = (fk, Some fs, agr)"
    and "thresholdFor sens \<le> fs" "fk \<noteq> ck"
  shows "detectKeyEnsemble buf sens ck =
     (Some \<lparr>key = propertyName fk,
            confidence = js_round (dmul (dmul fs 400) (agreementBonus agr)),
            agreement = agr,
            agreementText = agreementTextOf agr,
            profileResults = profileResultsOf nz,
            methodName = ''ensemble''\<rparr>, fk)"
  using assms by (simp add: detect_cases)

lemma ambiguous_counts:
  "noteCountsOf ambiguous_notes = [1, 1, 0, 1, 0, 1, 1, 1, 0, 1, 0, 1]"
  by code_simp

lemma ambiguous_normalized:
  "normalizedOf ambiguous_notes = Some [1 / 8, 1 / 8, 0, 1 / 8, 0, 1 / 8, 1 / 8, 1 / 8, 0, 1 / 8, 0, 1 / 8]"
  by (simp add: normalizedOf_def ambiguous_counts toDouble_eval)

lemma ambiguous_albrecht_shanahan:
  "bestKeyFor [1 / 8, 1 / 8, 0, 1 / 8, 0, 1 / 8, 1 / 8, 1 / 8, 0, 1 / 8, 0, 1 / 8]
     ALBRECHT_SHANAHAN_PROFILES
     = (Some ''Cm'', Some (3386706919782613 / 36028797018963968))"
  by (simp add: bestKeyFor_eval)

lemma ambiguous_temperley:
  "bestKeyFor [1 / 8, 1 / 8, 0, 1 / 8, 0, 1 / 8, 1 / 8, 1 / 8, 0, 1 / 8, 0, 1 / 8]
     TEMPERLEY_PROFILES
     = (Some ''Em'', Some (1715871458028159 / 18014398509481984))"
  by (simp add: bestKeyFor_eval)

lemma ambiguous_krumhansl_kessler:
  "bestKeyFor [1 / 8, 1 / 8, 0, 1 / 8, 0, 1 / 8, 1 / 8, 1 / 8, 0, 1 / 8, 0, 1 / 8]
     KRUMHANSL_KESSLER_PROFILES
     = (Some ''F#'', Some (6305039478318695 / 72057594037927936))"
  by (simp add: bestKeyFor_eval)

lemmas ambiguous_best =
  ambiguous_albrecht_shanahan ambiguous_temperley ambiguous_krumhansl_kessler

lemma ambiguous_profileResults:
  "profileResultsOf [1 / 8, 1 / 8, 0, 1 / 8, 0, 1 / 8, 1 / 8, 1 / 8, 0, 1 / 8, 0, 1 / 8]
     = [(''albrecht_shanahan'', Some ''Cm'', Some (3386706919782613 / 36028797018963968)),
        (''temperley'', Some ''Em'', Some (1715871458028159 / 18014398509481984)),
        (''krumhansl_kessler'', Some ''F#'', Some (6305039478318695 / 72057594037927936))]"
  by (simp add: profileResultsOf_def ENSEMBLE_CONFIG_profiles_def ambiguous_best)

lemma ambiguous_tally:
  "tallyVotes [1 / 8, 1 / 8, 0, 1 / 8, 0, 1 / 8, 1 / 8, 1 / 8, 0, 1 / 8, 0, 1 / 8]
     = [(''Cm'', \<lparr>weightedScore = Some (47625566059443 / 1125899906842624), voteCount = 1,
                 profiles = [''albrecht_shanahan'']\<rparr>),
        (''Em'', \<lparr>weightedScore = Some (4804440082478845 / 144115188075855872), voteCount = 1,
                 profiles = [''temperley'']\<rparr>),
        (''F#'', \<lparr>weightedScore = Some (1261007895663739 / 72057594037927936), voteCount = 1,
                 profiles = [''krumhansl_kessler'']\<rparr>)]"
  by (simp add: tallyVotes_def addVote_def ENSEMBLE_CONFIG_profiles_def ambiguous_best
      propertyName_def toDouble_eval)

lemma ambiguous_vote:
  "finalVote (tallyVotes [1 / 8, 1 / 8, 0, 1 / 8, 0, 1 / 8, 1 / 8, 1 / 8, 0, 1 / 8, 0, 1 / 8])
     = (Some ''Cm'', Some (47625566059443 / 1125899906842624), 1)"
  unfolding ambiguous_tally by (simp add: finalVote_def finalStep_def)

lemma ambiguous_product:
  "dmul (dmul (47625566059443 / 1125899906842624) 400) (agreementBonus 1)
     = 238127830297215 / 17592186044416"
  by (simp add: agreementBonus_def toDouble_eval)

lemma ambiguous_detect:
  "detectKeyEnsemble ambiguous_notes ''medium'' None =
     (Some \<lparr>key = ''Cm'', confidence = 14, agreement = 1, agreementText = ''1/3 agree'',
            profileResults =
              [(''albrecht_shanahan'', Some ''Cm'', Some (3386706919782613 / 36028797018963968)),
               (''temperley'', Some ''Em'', Some (1715871458028159 / 18014398509481984)),
               (''krumhansl_kessler'', Some ''F#'', Some (6305039478318695 / 72057594037927936))],
            methodName = ''ensemble''\<rparr>,
      Some ''Cm'')"
proof -
  have t: "thresholdFor ''medium'' \<le> (47625566059443 / 1125899906842624 :: real)"
    by (simp add: thresholdFor_def toDouble_eval)
  have n: "Some ''Cm'' \<noteq> (None :: string option)" by simp
  have c: "js_round (dmul (dmul (47625566059443 / 1125899906842624) 400) (agreementBonus 1)) = 14"
    unfolding ambiguous_product by (simp add: js_round_def)
  have a: "agreementTextOf 1 = ''1/3 agree''" by code_simp
  show ?thesis
    unfolding detect_some[OF ambiguous_normalized ambiguous_vote t n] c a ambiguous_profileResults
    by (simp add: propertyName_def)
qed

text \<open>
  Claim C4, as stated, fails: the confidence is not the clamped product. For the
  eight-note buffer the winning key C minor has the weighted score 0.042300000000000004
  with 1 of 3 profiles behind it, so the product is 13.536000000000001, within the range
  and left alone by a clamp; the confidence returned at medium sensitivity is 14.
\<close>

theorem confidence_is_not_the_clamped_product:
  "map_option confidence (fst (detectKeyEnsemble ambiguous_notes ''medium'' None)) = Some 14
   \<and> normalizedOf ambiguous_notes
        = Some [1 / 8, 1 / 8, 0, 1 / 8, 0, 1 / 8, 1 / 8, 1 / 8, 0, 1 / 8, 0, 1 / 8]
   \<and> finalVote (tallyVotes [1 / 8, 1 / 8, 0, 1 / 8, 0, 1 / 8, 1 / 8, 1 / 8, 0, 1 / 8, 0, 1 / 8])
        = (Some ''Cm'', Some (47625566059443 / 1125899906842624), 1)
   \<and> max 0 (min 100 (dmul (dmul (47625566059443 / 1125899906842624) 400) (agreementBonus 1)))
        = (238127830297215 / 17592186044416 :: real)
   \<and> (238127830297215 / 17592186044416 :: real) \<noteq> 14"
proof -
  have a: "map_option confidence (fst (detectKeyEnsemble ambiguous_notes ''medium'' None)) = Some 14"
    unfolding ambiguous_detect by simp
  have b: "max 0 (min 100 (dmul (dmul (47625566059443 / 1125899906842624) 400) (agreementBonus 1)))
        = (238127830297215 / 17592186044416 :: real)"
    unfolding ambiguous_product by simp
  have c: "(238127830297215 / 17592186044416 :: real) \<noteq> 14" by simp
  show ?thesis using a ambiguous_normalized ambiguous_vote b c by (intro conjI)
qed

theorem confidence_rounded_within_range_witness:
  "detectKeyEnsemble ambiguous_notes ''medium'' None =
     (Some \<lparr>key = ''Cm'', confidence = 14, agreement = 1, agreementText = ''1/3 agree'',
            profileResults =
              [(''albrecht_shanahan'', Some ''Cm'', Some (3386706919782613 / 36028797018963968)),
               (''temperley'', Some ''Em'', Some (1715871458028159 / 18014398509481984)),
               (''krumhansl_kessler'', Some ''F#'', Some (6305039478318695 / 72057594037927936))],
            methodName = ''ensemble''\<rparr>,
      Some ''Cm'')
   \<and> (\<exists>nz fk fs. normalizedOf ambiguous_notes = Some nz
         \<and> finalVote (tallyVotes nz) = (fk, Some fs, 1)
         \<and> (14::int) = js_round (dmul (dmul fs 400) (agreementBonus 1))
         \<and> agreementBonus 1 = toDouble 0.8
         \<and> (0::int) \<le> 14 \<and> (14::int) \<le> 100 \<and> (1::nat) \<in> {1, 2, 3})"
  using ambiguous_detect confidence_rounded_within_range[OF ambiguous_detect]
  by simp

theorem detector_threshold_and_hysteresis_witness:
  "normalizedOf ambiguous_notes
     = Some [1 / 8, 1 / 8, 0, 1 / 8, 0, 1 / 8, 1 / 8, 1 / 8, 0, 1 / 8, 0, 1 / 8]
   \<and> finalVote (tallyVotes [1 / 8, 1 / 8, 0, 1 / 8, 0, 1 / 8, 1 / 8, 1 / 8, 0, 1 / 8, 0, 1 / 8])
       = (Some ''Cm'', Some (47625566059443 / 1125899906842624), 1)
   \<and> (47625566059443 / 1125899906842624 :: real) < thresholdFor ''low''
   \<and> detectKeyEnsemble ambiguous_notes ''low'' None = (None, None)
   \<and> detectKeyEnsemble ambiguous_notes ''medium'' (Some ''Cm'') = (None, Some ''Cm'')
   \<and> fst (detectKeyEnsemble ambiguous_notes ''medium''
            (snd (detectKeyEnsemble ambiguous_notes ''medium'' None))) = None
   \<and> ((\<lambda>k. snd (detectKeyEnsemble ambiguous_notes ''medium'' k)) ^^ Suc 4) None
       = snd (detectKeyEnsemble ambiguous_notes ''medium'' None)"
proof -
  have lt: "(47625566059443 / 1125899906842624 :: real) < thresholdFor ''low''"
    by (simp add: thresholdFor_def toDouble_eval)
  note low = detector_threshold_and_hysteresis[where buf=ambiguous_notes and sens="''low''"
      and ck=None and fk="Some ''Cm''" and fs="47625566059443 / 1125899906842624" and agr=1 and n=4
      and nz="[1 / 8, 1 / 8, 0, 1 / 8, 0, 1 / 8, 1 / 8, 1 / 8, 0, 1 / 8, 0, 1 / 8]"]
  note med = detector_threshold_and_hysteresis[where buf=ambiguous_notes and sens="''medium''"
      and ck="Some ''Cm''" and fk="Some ''Cm''" and fs="47625566059443 / 1125899906842624" and agr=1 and n=4
      and nz="[1 / 8, 1 / 8, 0, 1 / 8, 0, 1 / 8, 1 / 8, 1 / 8, 0, 1 / 8, 0, 1 / 8]"]
  note rep = detector_threshold_and_hysteresis[where buf=ambiguous_notes and sens="''medium''"
      and ck=None and n=4]
  have a: "detectKeyEnsemble ambiguous_notes ''low'' None = (None, None)"
    using low ambiguous_normalized ambiguous_vote lt by blast
  have b: "detectKeyEnsemble ambiguous_notes ''medium'' (Some ''Cm'') = (None, Some ''Cm'')"
    using med ambiguous_normalized ambiguous_vote by blast
  have c: "fst (detectKeyEnsemble ambiguous_notes ''medium''
            (snd (detectKeyEnsemble ambiguous_notes ''medium'' None))) = None"
    using rep by blast
  have d: "((\<lambda>k. snd (detectKeyEnsemble ambiguous_notes ''medium'' k)) ^^ Suc 4) None
       = snd (detectKeyEnsemble ambiguous_notes ''medium'' None)"
    using rep by blast
  show ?thesis using ambiguous_normalized ambiguous_vote lt a b c d by (intro conjI)
qed

end
